theory Spec2Isabelle
  imports Main "HOL-Library.Word" "HOL-Library.List_Lexorder"
begin

section \<open>JavaScript strings, numbers and buffers\<close>

text \<open>
  A JavaScript string is a sequence of UTF-16 code units: \<open>length\<close>, \<open>slice\<close>,
  \<open>lastIndexOf\<close> and the regular expressions of the source all count code units, while
  \<open>Buffer.byteLength\<close> counts the bytes of the UTF-8 encoding. A \<open>Buffer\<close> is a list of
  bytes. String literals of the source are written \<open>js ''...''\<close>.
\<close>

type_synonym jschar = "16 word"
type_synonym jsstring = "jschar list"
type_synonym byte = "8 word"

definition js :: "string \<Rightarrow> jsstring" where
  "js s = map of_char s"

text \<open>\<open>s.lastIndexOf(c)\<close> for a one-character needle; \<open>None\<close> is JavaScript's \<open>-1\<close>.\<close>

fun lastIndexOf :: "jschar \<Rightarrow> jsstring \<Rightarrow> nat option" where
  "lastIndexOf c [] = None"
| "lastIndexOf c (x # xs) =
     (case lastIndexOf c xs of
        Some i \<Rightarrow> Some (Suc i)
      | None \<Rightarrow> if x = c then Some 0 else None)"

text \<open>\<open>s.split(c)\<close> for a one-character separator, and \<open>parts.join(sep)\<close>.\<close>

fun splitChar :: "jschar \<Rightarrow> jsstring \<Rightarrow> jsstring list" where
  "splitChar c [] = [[]]"
| "splitChar c (x # xs) =
     (if x = c then [] # splitChar c xs
      else (case splitChar c xs of
              p # ps \<Rightarrow> (x # p) # ps
            | [] \<Rightarrow> [[x]]))"

fun joinWith :: "jsstring \<Rightarrow> jsstring list \<Rightarrow> jsstring" where
  "joinWith sep [] = []"
| "joinWith sep [p] = p"
| "joinWith sep (p # q # ps) = p @ sep @ joinWith sep (q # ps)"

text \<open>
  \<open>text.split(search)\<close> for a non-empty separator string: the text is scanned from the
  left, and it is cut at every place where the separator starts, the scan resuming
  behind the separator. (The source never splits on the empty string.)
\<close>

function splitOn :: "jsstring \<Rightarrow> jsstring \<Rightarrow> jsstring list" where
  "splitOn sep [] = [[]]"
| "splitOn sep (x # xs) =
     (if sep \<noteq> [] \<and> take (length sep) (x # xs) = sep
      then [] # splitOn sep (drop (length sep) (x # xs))
      else (case splitOn sep xs of
              p # ps \<Rightarrow> (x # p) # ps
            | [] \<Rightarrow> [[x]]))"
  by pat_completeness auto
termination
  by (relation "measure (\<lambda>(sep, t). length t)") auto

text \<open>\<open>n.toString(radix)\<close> for a non-negative integer, and \<open>s.padStart(n, c)\<close>.\<close>

definition digitChar :: "nat \<Rightarrow> jschar" where
  "digitChar d = (if d < 10 then of_nat (48 + d) else of_nat (87 + d))"

function toStringRadix :: "nat \<Rightarrow> nat \<Rightarrow> jsstring" where
  "toStringRadix r n =
     (if r < 2 \<or> n < r then [digitChar n]
      else toStringRadix r (n div r) @ [digitChar (n mod r)])"
  by pat_completeness auto
termination
  by (relation "measure (\<lambda>(r, n). n)") auto

definition padStart :: "nat \<Rightarrow> jschar \<Rightarrow> jsstring \<Rightarrow> jsstring" where
  "padStart n c s = replicate (n - length s) c @ s"

text \<open>
  \<open>Buffer.byteLength(s)\<close>: the length of the UTF-8 encoding. A surrogate pair is one code
  point of four bytes; a lone surrogate is encoded as U+FFFD, three bytes.
\<close>

definition isHighSurrogate :: "jschar \<Rightarrow> bool" where
  "isHighSurrogate c = (0xD800 \<le> c \<and> c \<le> 0xDBFF)"

definition isLowSurrogate :: "jschar \<Rightarrow> bool" where
  "isLowSurrogate c = (0xDC00 \<le> c \<and> c \<le> 0xDFFF)"

definition unitBytes :: "jschar \<Rightarrow> nat" where
  "unitBytes c = (if c < 0x80 then 1 else if c < 0x800 then 2 else 3)"

fun byteLength :: "jsstring \<Rightarrow> nat" where
  "byteLength [] = 0"
| "byteLength [c] = unitBytes c"
| "byteLength (c # d # cs) =
     (if isHighSurrogate c \<and> isLowSurrogate d then 4 + byteLength cs
      else unitBytes c + byteLength (d # cs))"

text \<open>
  JavaScript's white space: what \<open>\s\<close> matches and what \<open>trim()\<close> removes (WhiteSpace
  and LineTerminator of ECMAScript).
\<close>

definition isWhiteSpace :: "jschar \<Rightarrow> bool" where
  "isWhiteSpace c =
     ((0x09 \<le> c \<and> c \<le> 0x0D) \<or> c = 0x20 \<or> c = 0xA0 \<or> c = 0x1680
      \<or> (0x2000 \<le> c \<and> c \<le> 0x200A) \<or> c = 0x2028 \<or> c = 0x2029 \<or> c = 0x202F
      \<or> c = 0x205F \<or> c = 0x3000 \<or> c = 0xFEFF)"

definition trim :: "jsstring \<Rightarrow> jsstring" where
  "trim s = rev (dropWhile isWhiteSpace (rev (dropWhile isWhiteSpace s)))"

text \<open>\<open>s.replace(/\s+/g, ' ')\<close>: every maximal run of white space becomes one space.\<close>

function collapseWhiteSpace :: "jsstring \<Rightarrow> jsstring" where
  "collapseWhiteSpace [] = []"
| "collapseWhiteSpace (c # cs) =
     (if isWhiteSpace c then 0x20 # collapseWhiteSpace (dropWhile isWhiteSpace cs)
      else c # collapseWhiteSpace cs)"
  by pat_completeness auto
termination
  by (relation "measure length") (auto simp: length_dropWhile_le less_Suc_eq_le)

text \<open>
  Writes into a buffer. An index outside the buffer is ignored, by \<open>buffer[i] = v\<close> and by
  \<open>buffer.write\<close> alike, as \<open>list_update\<close> does.
\<close>

fun bufWrite :: "byte list \<Rightarrow> nat \<Rightarrow> byte list \<Rightarrow> byte list" where
  "bufWrite buf off [] = buf"
| "bufWrite buf off (b # bs) = bufWrite (buf[off := b]) (Suc off) bs"

text \<open>\<open>buffer.fill(v, start, end)\<close>.\<close>

definition bufFill :: "byte list \<Rightarrow> byte \<Rightarrow> nat \<Rightarrow> nat \<Rightarrow> byte list" where
  "bufFill buf v start stop = bufWrite buf start (replicate (stop - start) v)"

section \<open>Path sanitizer and deduper (download.ts)\<close>

text \<open>
  The SHA-256 hex digest of Node's \<open>crypto\<close> module is a parameter \<open>sha256hex\<close> of
  every function that hashes.
\<close>

definition shortHash :: "(jsstring \<Rightarrow> jsstring) \<Rightarrow> jsstring \<Rightarrow> jsstring" where
  "shortHash sha256hex input = take 10 (sha256hex input)"

text \<open>
  The character class of line 35 of the source: backslash, slash, colon, asterisk, question
  mark, double quote, less-than, greater-than and vertical bar, by code unit.
\<close>

definition unsafeChars :: "jschar set" where
  "unsafeChars = {0x5C, 0x2F, 0x3A, 0x2A, 0x3F, 0x22, 0x3C, 0x3E, 0x7C}"

definition sanitizeSegment :: "jsstring \<Rightarrow> jsstring" where
  "sanitizeSegment input =
     take 80
       (trim
         (collapseWhiteSpace
           (map (\<lambda>c. if c \<in> unsafeChars then 0x5F else c)
             (filter (\<lambda>c. c \<noteq> 0) input))))"

definition sanitizePath :: "jsstring \<Rightarrow> jsstring" where
  "sanitizePath input =
     joinWith (js ''/'')
       (filter (\<lambda>p. p \<noteq> [])
         (map sanitizeSegment
           (filter (\<lambda>p. p \<noteq> [])
             (splitChar 0x2F (map (\<lambda>c. if c = 0x5C then 0x2F else c) input)))))"

definition candidatePath :: "jsstring \<Rightarrow> nat \<Rightarrow> jsstring \<Rightarrow> jsstring" where
  "candidatePath base i ext = base @ js ''_'' @ toStringRadix 10 i @ ext"

text \<open>The loop \<open>for (let i = 2; i < 1000; i++)\<close> of \<open>dedupePath\<close>; \<open>None\<close> when it falls through.\<close>

function dedupeLoop :: "jsstring \<Rightarrow> jsstring \<Rightarrow> jsstring set \<Rightarrow> nat \<Rightarrow> jsstring option" where
  "dedupeLoop base ext used i =
     (if i < 1000
      then (if candidatePath base i ext \<notin> used then Some (candidatePath base i ext)
            else dedupeLoop base ext used (Suc i))
      else None)"
  by pat_completeness auto
termination
  by (relation "measure (\<lambda>(base, ext, used, i). 1000 - i)") auto

text \<open>\<open>dedupePath\<close> returns the path and the registry as the call leaves it.\<close>

definition dedupePath ::
  "(jsstring \<Rightarrow> jsstring) \<Rightarrow> jsstring \<Rightarrow> jsstring set \<Rightarrow> jsstring \<times> jsstring set" where
  "dedupePath sha256hex path used =
     (if path \<notin> used then (path, insert path used)
      else
        let idx = lastIndexOf 0x2E path;
            base = (case idx of Some i \<Rightarrow> take i path | None \<Rightarrow> path);
            ext = (case idx of Some i \<Rightarrow> drop i path | None \<Rightarrow> [])
        in (case dedupeLoop base ext used 2 of
              Some c \<Rightarrow> (c, insert c used)
            | None \<Rightarrow>
                let fallback = base @ js ''_'' @ shortHash sha256hex path @ ext
                in (fallback, insert fallback used)))"

text \<open>A sequence of calls that share one registry: the paths they return, in order.\<close>

fun dedupeAll ::
  "(jsstring \<Rightarrow> jsstring) \<Rightarrow> jsstring list \<Rightarrow> jsstring set \<Rightarrow> jsstring list" where
  "dedupeAll sha256hex [] used = []"
| "dedupeAll sha256hex (p # ps) used =
     (case dedupePath sha256hex p used of
        (r, used') \<Rightarrow> r # dedupeAll sha256hex ps used')"

section \<open>The archive encoder (lib/tar.ts)\<close>

datatype TarEntry =
  TarFile (path: jsstring) (content: "byte list") (mode: "int option") (mtime: "int option")
| TarDir (path: jsstring) (mode: "int option") (mtime: "int option")

definition toPosixPath :: "jsstring \<Rightarrow> jsstring" where
  "toPosixPath p =
     dropWhile (\<lambda>c. c = 0x2F) (map (\<lambda>c. if c = 0x5C then 0x2F else c) p)"

definition ensureTrailingSlash :: "jsstring \<Rightarrow> jsstring" where
  "ensureTrailingSlash p = (if p \<noteq> [] \<and> last p = 0x2F then p else p @ js ''/'')"

text \<open>
  \<open>buffer.write(str, offset, n, 'ascii')\<close> stores the low byte of each code unit, at most
  \<open>n\<close> of them.
\<close>

definition writeString :: "byte list \<Rightarrow> nat \<Rightarrow> nat \<Rightarrow> jsstring \<Rightarrow> byte list" where
  "writeString buffer offset len v =
     (let str = take len v
      in bufWrite buffer offset (take (min len (byteLength str)) (map ucast str)))"

text \<open>The numbers of a header (mode, size, time) are integers; \<open>Math.max(0, value)\<close> clamps them.\<close>

definition writeOctal :: "byte list \<Rightarrow> nat \<Rightarrow> nat \<Rightarrow> int \<Rightarrow> byte list" where
  "writeOctal buffer offset len v =
     (let oct = toStringRadix 8 (nat (max 0 v));
          padded = padStart (len - 1) 0x30 oct
      in (writeString buffer offset (len - 1) padded)[offset + len - 1 := 0])"

record tarPath =
  name :: jsstring
  prefix :: jsstring

definition splitTarPath :: "(jsstring \<Rightarrow> jsstring) \<Rightarrow> jsstring \<Rightarrow> tarPath" where
  "splitTarPath sha256hex p =
     (let normalized = toPosixPath p
      in if byteLength normalized \<le> 100 then \<lparr>name = normalized, prefix = []\<rparr>
         else
           let fallback = \<lparr>name = js ''path_'' @ take 16 (sha256hex normalized), prefix = []\<rparr>
           in (case lastIndexOf 0x2F normalized of
                 None \<Rightarrow> fallback
               | Some idx \<Rightarrow>
                   if 0 < idx \<and> byteLength (drop (idx + 1) normalized) \<le> 100
                      \<and> byteLength (take idx normalized) \<le> 155
                   then \<lparr>name = drop (idx + 1) normalized, prefix = take idx normalized\<rparr>
                   else fallback))"

datatype typeflag = Flag0 | Flag5

fun charCode :: "typeflag \<Rightarrow> byte" where
  "charCode Flag0 = 0x30"
| "charCode Flag5 = 0x35"

text \<open>The header before its checksum is written: lines 59 to 80 of the source.\<close>

definition headerFields ::
  "(jsstring \<Rightarrow> jsstring) \<Rightarrow> jsstring \<Rightarrow> int \<Rightarrow> int \<Rightarrow> int \<Rightarrow> typeflag \<Rightarrow> byte list" where
  "headerFields sha256hex p sz md mt flag =
     (let h = replicate 512 0;
          np = splitTarPath sha256hex p;
          h = writeString h 0 100 (name np);
          h = writeOctal h 100 8 md;
          h = writeOctal h 108 8 0;
          h = writeOctal h 116 8 0;
          h = writeOctal h 124 12 sz;
          h = writeOctal h 136 12 mt;
          h = bufFill h 0x20 148 156;
          h = h[156 := charCode flag];
          h = writeString h 257 6 (js ''ustar'');
          h = h[262 := 0];
          h = writeString h 263 2 (js ''00'');
          h = writeString h 265 32 (js ''root'');
          h = writeString h 297 32 (js ''root'');
          h = writeOctal h 329 8 0;
          h = writeOctal h 337 8 0
      in writeString h 345 155 (prefix np))"

definition createHeader ::
  "(jsstring \<Rightarrow> jsstring) \<Rightarrow> jsstring \<Rightarrow> int \<Rightarrow> int \<Rightarrow> int \<Rightarrow> typeflag \<Rightarrow> byte list" where
  "createHeader sha256hex p sz md mt flag =
     (let header = headerFields sha256hex p sz md mt flag;
          total = sum_list (map unat header);
          chk = padStart 6 0x30 (toStringRadix 8 total);
          header = writeString header 148 6 chk;
          header = header[154 := 0]
      in header[155 := 0x20])"

definition padTo512 :: "byte list \<Rightarrow> byte list" where
  "padTo512 buffer =
     (let remainder = length buffer mod 512
      in if remainder = 0 then buffer else buffer @ replicate (512 - remainder) 0)"

text \<open>The inner loop of \<open>addParentDirs\<close>: every proper ancestor of a path, outermost first.\<close>

fun ancestorDirs :: "jsstring \<Rightarrow> jsstring list \<Rightarrow> jsstring list" where
  "ancestorDirs current [] = []"
| "ancestorDirs current [p] = []"
| "ancestorDirs current (p # q # ps) =
     (let cur = (if current \<noteq> [] then current @ js ''/'' @ p else p)
      in ensureTrailingSlash cur # ancestorDirs cur (q # ps))"

definition addParentDirs :: "jsstring list \<Rightarrow> TarEntry list" where
  "addParentDirs paths =
     map (\<lambda>d. TarDir d None None)
       (sort (remdups
         (concat (map (\<lambda>p. ancestorDirs []
            (filter (\<lambda>s. s \<noteq> []) (splitChar 0x2F (toPosixPath p)))) paths))))"

definition withPath :: "TarEntry \<Rightarrow> jsstring \<Rightarrow> TarEntry" where
  "withPath e p =
     (case e of
        TarFile _ c md mt \<Rightarrow> TarFile p c md mt
      | TarDir _ md mt \<Rightarrow> TarDir p md mt)"

text \<open>The entries \<open>createTar\<close> encodes: the synthesized directories, then the caller's entries.\<close>

definition allEntries :: "TarEntry list \<Rightarrow> TarEntry list" where
  "allEntries entries =
     (let normalizedEntries =
            filter (\<lambda>e. path e \<noteq> []) (map (\<lambda>e. withPath e (toPosixPath (path e))) entries);
          filePaths = map path normalizedEntries
      in addParentDirs filePaths @ normalizedEntries)"

text \<open>The header and the blocks one entry adds to \<open>parts\<close>; \<open>now\<close> is \<open>Date.now() / 1000\<close>, floored.\<close>

fun entryHeader :: "(jsstring \<Rightarrow> jsstring) \<Rightarrow> int \<Rightarrow> TarEntry \<Rightarrow> byte list" where
  "entryHeader sha256hex now (TarDir p md mt) =
     createHeader sha256hex (ensureTrailingSlash p) 0
       (case md of None \<Rightarrow> 493 | Some m \<Rightarrow> m) (case mt of None \<Rightarrow> now | Some t \<Rightarrow> t) Flag5"
| "entryHeader sha256hex now (TarFile p c md mt) =
     createHeader sha256hex p (int (length c))
       (case md of None \<Rightarrow> 420 | Some m \<Rightarrow> m) (case mt of None \<Rightarrow> now | Some t \<Rightarrow> t) Flag0"

fun entryBlocks :: "(jsstring \<Rightarrow> jsstring) \<Rightarrow> int \<Rightarrow> TarEntry \<Rightarrow> byte list" where
  "entryBlocks sha256hex now (TarDir p md mt) = entryHeader sha256hex now (TarDir p md mt)"
| "entryBlocks sha256hex now (TarFile p c md mt) =
     entryHeader sha256hex now (TarFile p c md mt) @ padTo512 c"

definition createTar :: "(jsstring \<Rightarrow> jsstring) \<Rightarrow> int \<Rightarrow> TarEntry list \<Rightarrow> byte list" where
  "createTar sha256hex now entries =
     concat (map (entryBlocks sha256hex now) (allEntries entries)) @ replicate 1024 0"

section \<open>Asset download and packaging (download.ts)\<close>

text \<open>
  \<open>Buffer.from(s, 'utf8')\<close>: the UTF-8 encoding of a string of UTF-16 code units.
\<close>

definition codePointBytes :: "nat \<Rightarrow> byte list" where
  "codePointBytes cp =
     (if cp < 0x80 then [of_nat cp]
      else if cp < 0x800 then [of_nat (0xC0 + cp div 64), of_nat (0x80 + cp mod 64)]
      else if cp < 0x10000
      then [of_nat (0xE0 + cp div 4096), of_nat (0x80 + (cp div 64) mod 64),
            of_nat (0x80 + cp mod 64)]
      else [of_nat (0xF0 + cp div 262144), of_nat (0x80 + (cp div 4096) mod 64),
            of_nat (0x80 + (cp div 64) mod 64), of_nat (0x80 + cp mod 64)])"

definition unitCodePoint :: "jschar \<Rightarrow> nat" where
  "unitCodePoint c = (if isHighSurrogate c \<or> isLowSurrogate c then 0xFFFD else unat c)"

fun utf8Encode :: "jsstring \<Rightarrow> byte list" where
  "utf8Encode [] = []"
| "utf8Encode [c] = codePointBytes (unitCodePoint c)"
| "utf8Encode (c # d # cs) =
     (if isHighSurrogate c \<and> isLowSurrogate d
      then codePointBytes (0x10000 + (unat c - 0xD800) * 1024 + (unat d - 0xDC00))
             @ utf8Encode cs
      else codePointBytes (unitCodePoint c) @ utf8Encode (d # cs))"

text \<open>\<open>a || b\<close> on strings: the empty string is falsy.\<close>

definition orElse :: "jsstring \<Rightarrow> jsstring \<Rightarrow> jsstring" where
  "orElse a b = (if a \<noteq> [] then a else b)"

definition startsWith :: "jsstring \<Rightarrow> jsstring \<Rightarrow> bool" where
  "startsWith s p = (take (length p) s = p)"

definition MAX_URLS :: nat where "MAX_URLS = 20"
definition MAX_ASSET_BYTES :: nat where "MAX_ASSET_BYTES = 25 * 1024 * 1024"
definition MAX_TOTAL_ASSET_BYTES :: nat where "MAX_TOTAL_ASSET_BYTES = 150 * 1024 * 1024"

datatype AssetKind = Images | Files

fun kindName :: "AssetKind \<Rightarrow> jsstring" where
  "kindName Images = js ''images''"
| "kindName Files = js ''files''"

record PackageOptions =
  downloadImages :: bool
  downloadFiles :: bool

record DownloadedAsset =
  originalUrl :: jsstring
  relativePath :: jsstring
  assetContent :: "byte list"

record AssetManifest =
  images :: "jsstring list"
  files :: "jsstring list"

record ExtractResult =
  title :: "jsstring option"
  articleContent :: jsstring
  author :: "jsstring option"
  date :: "jsstring option"
  articleUrl :: jsstring

text \<open>What \<open>extractArticleWithAssets\<close> resolves to. It catches every error of its own.\<close>

datatype extraction =
  ExtractError jsstring
| Extracted ExtractResult AssetManifest

datatype jobRecord =
  JobFailed (jobUrl: jsstring) (jobFolder: jsstring) (jobError: jsstring)
| JobOk (jobUrl: jsstring) (jobFolder: jsstring) (imagesCount: nat) (filesCount: nat)
    (downloadedCount: nat)

record manifest =
  total :: nat
  success :: nat
  failed :: nat
  results :: "jobRecord list"

text \<open>
  The platform: what the source takes from Node and its libraries. \<open>newURL\<close> is
  \<open>new URL(s)\<close>, \<open>None\<close> when it throws; \<open>decodeURIComponent\<close> is \<open>None\<close> when it
  throws; \<open>dispositionName\<close> is the regular-expression matching of
  \<open>parseFilenameFromContentDisposition\<close> on a non-empty header value (lines 87 to 97 of
  the source), \<open>None\<close> for \<open>null\<close>.
\<close>

record parsedUrl =
  protocol :: jsstring
  hostname :: jsstring
  pathname :: jsstring

record platform =
  digest :: "jsstring \<Rightarrow> jsstring"
  newURL :: "jsstring \<Rightarrow> parsedUrl option"
  decodeURIComponent :: "jsstring \<Rightarrow> jsstring option"
  toLowerCase :: "jsstring \<Rightarrow> jsstring"
  dispositionName :: "jsstring \<Rightarrow> jsstring option"
  stringifyManifest :: "manifest \<Rightarrow> jsstring"
  gzipSync :: "byte list \<Rightarrow> byte list"

text \<open>
  The world of one request: what the extractor answers for the URL at an index, what
  \<open>fetch\<close> answers for the asset at an index of a job, the order in which the concurrent
  fetches of a job complete (a rank for each asset index: of the calls in flight, the one
  with the least rank completes next), and the clock.
\<close>

record httpResponse =
  ok :: bool
  contentType :: "jsstring option"
  contentDisposition :: "jsstring option"
  arrayBuffer :: "jsstring + byte list"

datatype fetchResult = FetchFailed | Responded httpResponse

record world =
  extractArticleWithAssets :: "nat \<Rightarrow> jsstring \<Rightarrow> extraction"
  fetch :: "nat \<Rightarrow> nat \<Rightarrow> jsstring \<Rightarrow> jsstring \<Rightarrow> fetchResult"
  completion :: "nat \<Rightarrow> nat \<Rightarrow> nat"
  nowSeconds :: int

definition safeArticleFolder ::
  "platform \<Rightarrow> jsstring \<Rightarrow> jsstring option \<Rightarrow> nat \<Rightarrow> jsstring option" where
  "safeArticleFolder pf u ttl index =
     (let pre = padStart 3 0x30 (toStringRadix 10 (index + 1));
          b1 = sanitizeSegment (case ttl of None \<Rightarrow> [] | Some t \<Rightarrow> t)
      in if b1 \<noteq> [] then Some (pre @ js ''_'' @ b1)
         else (case newURL pf u of
                 None \<Rightarrow> None
               | Some pu \<Rightarrow>
                   Some (pre @ js ''_''
                     @ orElse (sanitizeSegment (hostname pu)) (js ''article_'' @ pre))))"

text \<open>
  The content-type table of \<open>guessExtFromContentType\<close>, an object literal.
\<close>

definition extensionTable :: "(jsstring \<times> jsstring) list" where
  "extensionTable =
     [(js ''image/jpeg'', js ''.jpg''),
      (js ''image/jpg'', js ''.jpg''),
      (js ''image/png'', js ''.png''),
      (js ''image/gif'', js ''.gif''),
      (js ''image/webp'', js ''.webp''),
      (js ''image/svg+xml'', js ''.svg''),
      (js ''application/pdf'', js ''.pdf''),
      (js ''application/zip'', js ''.zip''),
      (js ''application/x-zip-compressed'', js ''.zip''),
      (js ''application/x-rar-compressed'', js ''.rar''),
      (js ''application/msword'', js ''.doc''),
      (js ''application/vnd.openxmlformats-officedocument.wordprocessingml.document'',
         js ''.docx''),
      (js ''application/vnd.ms-powerpoint'', js ''.ppt''),
      (js ''application/vnd.openxmlformats-officedocument.presentationml.presentation'',
         js ''.pptx''),
      (js ''application/vnd.ms-excel'', js ''.xls''),
      (js ''application/vnd.openxmlformats-officedocument.spreadsheetml.sheet'', js ''.xlsx''),
      (js ''text/plain'', js ''.txt''),
      (js ''text/markdown'', js ''.md''),
      (js ''text/csv'', js ''.csv''),
      (js ''application/json'', js ''.json'')]"

text \<open>
  \<open>mapping[ct]\<close> also finds what the object literal inherits from \<open>Object.prototype\<close>:
  its methods and the accessor \<open>__proto__\<close>. These values are truthy, so \<open>|| ''\<close> keeps
  them, and line 194 appends them to the file name as the strings that the template
  literal makes of them.
\<close>

definition nativeFunction :: "string \<Rightarrow> jsstring \<times> jsstring" where
  "nativeFunction key = (js key, js ''function '' @ js key @ js ''() { [native code] }'')"

definition inheritedTable :: "(jsstring \<times> jsstring) list" where
  "inheritedTable =
     [(js ''constructor'', js ''function Object() { [native code] }''),
      nativeFunction ''__defineGetter__'',
      nativeFunction ''__defineSetter__'',
      nativeFunction ''hasOwnProperty'',
      nativeFunction ''__lookupGetter__'',
      nativeFunction ''__lookupSetter__'',
      nativeFunction ''isPrototypeOf'',
      nativeFunction ''propertyIsEnumerable'',
      nativeFunction ''toString'',
      nativeFunction ''valueOf'',
      (js ''__proto__'', js ''[object Object]''),
      nativeFunction ''toLocaleString'']"

definition guessExtFromContentType :: "platform \<Rightarrow> jsstring \<Rightarrow> jsstring" where
  "guessExtFromContentType pf ct =
     (let c = toLowerCase pf (trim (hd (splitChar 0x3B ct)))
      in (case map_of extensionTable c of
            Some e \<Rightarrow> e
          | None \<Rightarrow> (case map_of inheritedTable c of None \<Rightarrow> [] | Some v \<Rightarrow> v)))"

definition parseFilenameFromContentDisposition ::
  "platform \<Rightarrow> jsstring option \<Rightarrow> jsstring option" where
  "parseFilenameFromContentDisposition pf cd =
     (case cd of
        None \<Rightarrow> None
      | Some v \<Rightarrow> if v = [] then None else dispositionName pf v)"

text \<open>Inserts a suffix before the extension: \<open>`${base}${suffix}${ext}`\<close> at the last dot.\<close>

definition beforeExtension :: "jsstring \<Rightarrow> jsstring \<Rightarrow> jsstring" where
  "beforeExtension filename suffix =
     (case lastIndexOf 0x2E filename of
        Some i \<Rightarrow> take i filename @ suffix @ drop i filename
      | None \<Rightarrow> filename @ suffix)"

text \<open>\<open>buildRelativeAssetPath\<close>; \<open>None\<close> when \<open>new URL(assetUrl)\<close> throws.\<close>

definition buildRelativeAssetPath ::
  "platform \<Rightarrow> jsstring \<Rightarrow> AssetKind \<Rightarrow> jsstring \<Rightarrow> jsstring option" where
  "buildRelativeAssetPath pf assetUrl kind filename =
     (case newURL pf assetUrl of
        None \<Rightarrow> None
      | Some u \<Rightarrow>
          let host = orElse (sanitizeSegment (hostname u)) (js ''host'');
              dir = sanitizePath (joinWith (js ''/'') (butlast (splitChar 0x2F (pathname u))));
              safeFilename = orElse (sanitizeSegment filename)
                (kindName kind @ js ''_'' @ shortHash (digest pf) assetUrl);
              base = (if dir \<noteq> [] then dir @ js ''/'' @ safeFilename else safeFilename)
          in Some (js ''assets/'' @ kindName kind @ js ''/'' @ host @ js ''/'' @ base))"

text \<open>
  The budget step of \<open>downloadAsset\<close>, lines 173 to 176: the three size checks and the
  increment of the shared counter. No \<open>await\<close> stands between them, so the step is one
  transition of the run. \<open>None\<close> is the early \<open>return null\<close>.
\<close>

definition acceptBytes :: "nat \<Rightarrow> nat \<Rightarrow> nat option" where
  "acceptBytes bytes len =
     (if len = 0 then None
      else if len > MAX_ASSET_BYTES then None
      else if bytes + len > MAX_TOTAL_ASSET_BYTES then None
      else Some (bytes + len))"

text \<open>The file name of a downloaded asset, lines 178 to 203.\<close>

definition resolveFilename ::
  "platform \<Rightarrow> jsstring \<Rightarrow> AssetKind \<Rightarrow> jsstring \<Rightarrow> jsstring option \<Rightarrow> jsstring" where
  "resolveFilename pf assetUrl kind ct cd =
     (let fallback = kindName kind @ js ''_'' @ shortHash (digest pf) assetUrl;
          urlName =
            (case newURL pf assetUrl of
               None \<Rightarrow> []
             | Some u \<Rightarrow>
                 (case filter (\<lambda>p. p \<noteq> []) (splitChar 0x2F (pathname u)) of
                    [] \<Rightarrow> []
                  | ps \<Rightarrow> (case decodeURIComponent pf (last ps) of None \<Rightarrow> [] | Some d \<Rightarrow> d)));
          named = (case parseFilenameFromContentDisposition pf cd of None \<Rightarrow> [] | Some n \<Rightarrow> n);
          filename = orElse (sanitizeSegment (orElse named (orElse urlName fallback))) fallback;
          filename =
            (if 0x2E \<in> set filename then filename
             else filename @ guessExtFromContentType pf ct)
      in if 0x3F \<in> set assetUrl
         then beforeExtension filename (js ''__'' @ shortHash (digest pf) assetUrl)
         else filename)"

text \<open>
  \<open>downloadAsset\<close> from the answer of \<open>fetch\<close> on: its result (\<open>Inl\<close> the message of
  an error it throws, \<open>Inr None\<close> for \<open>null\<close>), the registry of used paths and the shared
  byte counter as it leaves them.
\<close>

definition downloadAsset ::
  "platform \<Rightarrow> fetchResult \<Rightarrow> jsstring \<Rightarrow> AssetKind \<Rightarrow> jsstring set \<Rightarrow> nat
     \<Rightarrow> (jsstring + DownloadedAsset option) \<times> jsstring set \<times> nat" where
  "downloadAsset pf answer assetUrl kind usedPaths bytes =
     (case answer of
        FetchFailed \<Rightarrow> (Inr None, usedPaths, bytes)
      | Responded response \<Rightarrow>
          if \<not> ok response then (Inr None, usedPaths, bytes)
          else
            let ct = (case contentType response of None \<Rightarrow> [] | Some c \<Rightarrow> c);
                cd = contentDisposition response
            in if kind = Files \<and> startsWith (toLowerCase pf ct) (js ''text/html'')
               then (Inr None, usedPaths, bytes)
               else (case arrayBuffer response of
                       Inl message \<Rightarrow> (Inl message, usedPaths, bytes)
                     | Inr buf \<Rightarrow>
                         (case acceptBytes bytes (length buf) of
                            None \<Rightarrow> (Inr None, usedPaths, bytes)
                          | Some bytes' \<Rightarrow>
                              (case buildRelativeAssetPath pf assetUrl kind
                                      (resolveFilename pf assetUrl kind ct cd) of
                                 None \<Rightarrow> (Inl (js ''Invalid URL''), usedPaths, bytes')
                               | Some rel \<Rightarrow>
                                   (case dedupePath (digest pf) rel usedPaths of
                                      (rel', used') \<Rightarrow>
                                        (Inr (Some \<lparr>originalUrl = assetUrl,
                                                     relativePath = rel',
                                                     assetContent = buf\<rparr>),
                                         used', bytes'))))))"

definition replaceAll :: "jsstring \<Rightarrow> jsstring \<Rightarrow> jsstring \<Rightarrow> jsstring" where
  "replaceAll t search replacement =
     (if search = [] then t else joinWith replacement (splitOn search t))"

definition buildArticleMarkdown :: "ExtractResult \<Rightarrow> jsstring" where
  "buildArticleMarkdown r =
     (let ttl = (case title r of None \<Rightarrow> [] | Some t \<Rightarrow> t);
          ls = (if ttl \<noteq> [] then [js ''# '' @ ttl] else [])
            @ [js ''**'' @ [0x6765, 0x6E90] @ js ''**: '' @ articleUrl r]
            @ (case author r of
                 None \<Rightarrow> []
               | Some a \<Rightarrow> if a \<noteq> [] then [js ''**'' @ [0x4F5C, 0x8005] @ js ''**: '' @ a] else [])
            @ (case date r of
                 None \<Rightarrow> []
               | Some d \<Rightarrow> if d \<noteq> [] then [js ''**'' @ [0x65E5, 0x671F] @ js ''**: '' @ d] else [])
            @ [[], js ''---'', [], articleContent r]
      in trim (joinWith [0x0A] ls) @ [0x0A])"

definition pickAssets :: "AssetManifest \<Rightarrow> PackageOptions \<Rightarrow> AssetManifest" where
  "pickAssets m options =
     \<lparr>images = (if downloadImages options then images m else []),
      files = (if downloadFiles options then files m else [])\<rparr>"

text \<open>
  \<open>mapLimit\<close> over the assets of one job, with six workers. A worker takes the next
  index from the shared cursor and calls \<open>downloadAsset\<close>, which calls \<open>fetch\<close> at once
  and suspends there and at \<open>arrayBuffer\<close>; what follows the second \<open>await\<close> (the
  budget, the file name, the registry of paths) runs to completion, and nothing before it
  reads or writes the shared state. So a run of the pool is: the six workers start, each
  issuing the fetch of its item; then the calls in flight complete one by one, in the
  order the world gives them (the least rank first), each on the registry and the counter
  as the completions before it left them, and the worker whose call completed stores the
  result at the item's index and takes the next index. An error thrown by one call
  rejects the pool: the handler answers at once, with the other calls still in flight.
\<close>

definition ASSET_CONCURRENCY :: nat where "ASSET_CONCURRENCY = 6"

datatype event = ExtractCall jsstring | FetchCall AssetKind jsstring jsstring

record downloadState =
  downloaded :: "DownloadedAsset option list"
  usedPaths :: "jsstring set"
  totalBytes :: nat
  fetched :: "event list"
  thrown :: "jsstring option"
  cursor :: nat
  inFlight :: "nat list"

text \<open>
  One turn of a worker's loop, lines 217 to 219, up to the \<open>await\<close>: \<open>cursor++\<close>, and
  for an index inside the list the call of \<open>fetch\<close> for its item.
\<close>

definition startNext ::
  "jsstring \<Rightarrow> (AssetKind \<times> jsstring) list \<Rightarrow> downloadState \<Rightarrow> downloadState" where
  "startNext referer items st =
     (let index = cursor st;
          st = st\<lparr>cursor := index + 1\<rparr>
      in if index \<ge> length items then st
         else (case items ! index of
                 (kind, assetUrl) \<Rightarrow>
                   st\<lparr>inFlight := inFlight st @ [index],
                      fetched := fetched st @ [FetchCall kind assetUrl referer]\<rparr>))"

text \<open>
  The completion of the call in flight that the world answers next: \<open>downloadAsset\<close>
  from the answer of \<open>fetch\<close> on, then the worker's next turn.
\<close>

definition completeNext ::
  "platform \<Rightarrow> (nat \<Rightarrow> jsstring \<Rightarrow> jsstring \<Rightarrow> fetchResult) \<Rightarrow> (nat \<Rightarrow> nat) \<Rightarrow> jsstring
     \<Rightarrow> (AssetKind \<times> jsstring) list \<Rightarrow> downloadState \<Rightarrow> downloadState" where
  "completeNext pf fetchJob rank referer items st =
     (let k = arg_min_list rank (inFlight st);
          st = st\<lparr>inFlight := remove1 k (inFlight st)\<rparr>
      in (case items ! k of
            (kind, assetUrl) \<Rightarrow>
              (case downloadAsset pf (fetchJob k assetUrl referer) assetUrl kind
                      (usedPaths st) (totalBytes st) of
                 (res, used', bytes') \<Rightarrow>
                   let st = st\<lparr>usedPaths := used', totalBytes := bytes'\<rparr>
                   in (case res of
                         Inl message \<Rightarrow> st\<lparr>thrown := Some message\<rparr>
                       | Inr a \<Rightarrow>
                           startNext referer items
                             (st\<lparr>downloaded := (downloaded st)[k := a]\<rparr>)))))"

function downloadRun ::
  "platform \<Rightarrow> (nat \<Rightarrow> jsstring \<Rightarrow> jsstring \<Rightarrow> fetchResult) \<Rightarrow> (nat \<Rightarrow> nat) \<Rightarrow> jsstring
     \<Rightarrow> (AssetKind \<times> jsstring) list \<Rightarrow> downloadState \<Rightarrow> downloadState" where
  "downloadRun pf fetchJob rank referer items st =
     (if thrown st \<noteq> None \<or> inFlight st = [] then st
      else downloadRun pf fetchJob rank referer items
             (completeNext pf fetchJob rank referer items st))"
  by pat_completeness auto
termination
proof (relation "measure (\<lambda>(pf, fetchJob, rank, referer, items, st).
         if thrown st \<noteq> None then 0
         else 1 + length (inFlight st) + (length items - cursor st))")
  show "wf (measure (\<lambda>(pf :: platform, fetchJob :: nat \<Rightarrow> jsstring \<Rightarrow> jsstring \<Rightarrow> fetchResult,
         rank :: nat \<Rightarrow> nat, referer :: jsstring, items :: (AssetKind \<times> jsstring) list,
         st :: downloadState).
         if thrown st \<noteq> None then 0
         else 1 + length (inFlight st) + (length items - cursor st)))"
    by simp
next
  fix pf :: platform and fetchJob :: "nat \<Rightarrow> jsstring \<Rightarrow> jsstring \<Rightarrow> fetchResult"
    and rank :: "nat \<Rightarrow> nat" and referer :: jsstring
    and items :: "(AssetKind \<times> jsstring) list" and st :: downloadState
  assume "\<not> (thrown st \<noteq> None \<or> inFlight st = [])"
  then have t: "thrown st = None" and f: "inFlight st \<noteq> []"
    by simp_all
  have "arg_min_list rank (inFlight st) \<in> set (inFlight st)"
    using f by (rule arg_min_list_in)
  then have "length (remove1 (arg_min_list rank (inFlight st)) (inFlight st))
               < length (inFlight st)"
    using f by (simp add: length_remove1)
  then show "((pf, fetchJob, rank, referer, items,
               completeNext pf fetchJob rank referer items st),
              (pf, fetchJob, rank, referer, items, st))
             \<in> measure (\<lambda>(pf, fetchJob, rank, referer, items, st).
                   if thrown st \<noteq> None then 0
                   else 1 + length (inFlight st) + (length items - cursor st))"
    using t
    by (auto simp: completeNext_def startNext_def Let_def
          split: prod.splits sum.splits)
qed

text \<open>The list handed to \<open>mapLimit\<close> at lines 323 to 326: the assets that are scheduled.\<close>

definition assetItems :: "AssetManifest \<Rightarrow> (AssetKind \<times> jsstring) list" where
  "assetItems picked = map (Pair Images) (images picked) @ map (Pair Files) (files picked)"

definition downloadAssets ::
  "platform \<Rightarrow> world \<Rightarrow> nat \<Rightarrow> jsstring \<Rightarrow> (AssetKind \<times> jsstring) list \<Rightarrow> nat
     \<Rightarrow> downloadState" where
  "downloadAssets pf w job referer items bytes =
     downloadRun pf (fetch w job) (completion w job) referer items
       ((startNext referer items ^^ max 1 ASSET_CONCURRENCY)
          \<lparr>downloaded = replicate (length items) None, usedPaths = {}, totalBytes = bytes,
           fetched = [], thrown = None, cursor = 0, inFlight = []\<rparr>)"

text \<open>\<open>downloaded.filter(Boolean)\<close>, and the loop of lines 332 to 339 on the markdown.\<close>

definition okAssets :: "DownloadedAsset option list \<Rightarrow> DownloadedAsset list" where
  "okAssets ds = concat (map (\<lambda>d. case d of None \<Rightarrow> [] | Some a \<Rightarrow> [a]) ds)"

definition rewriteMarkdown :: "jsstring \<Rightarrow> DownloadedAsset list \<Rightarrow> jsstring" where
  "rewriteMarkdown markdown assets =
     foldl (\<lambda>m a. replaceAll m (originalUrl a) (relativePath a)) markdown assets"

definition errorMd :: "jsstring \<Rightarrow> jsstring \<Rightarrow> jsstring" where
  "errorMd u err =
     js ''# '' @ [0x63D0, 0x53D6, 0x5931, 0x8D25] @ [0x0A, 0x0A]
       @ js ''**'' @ [0x6765, 0x6E90] @ js ''**: '' @ u @ [0x0A, 0x0A]
       @ js ''**'' @ [0x9519, 0x8BEF] @ js ''**: '' @ err @ [0x0A]"

text \<open>
  The state of the loop over the articles, lines 292 to 352: the entries, the manifest,
  the shared counter \<open>totalAssets.bytes\<close>, the calls made so far, and the message of an
  error that was thrown (the \<open>catch\<close> of line 364 ends the request with it).
\<close>

record runState =
  tarEntries :: "TarEntry list"
  runManifest :: manifest
  assetBytes :: nat
  events :: "event list"
  failure :: "jsstring option"

definition failedJob :: "platform \<Rightarrow> runState \<Rightarrow> nat \<Rightarrow> jsstring \<Rightarrow> jsstring \<Rightarrow> runState" where
  "failedJob pf st index u err =
     (case safeArticleFolder pf u None index of
        None \<Rightarrow> st\<lparr>failure := Some (js ''Invalid URL'')\<rparr>
      | Some folder \<Rightarrow>
          st\<lparr>tarEntries := tarEntries st
                @ [TarFile (folder @ js ''/error.md'') (utf8Encode (errorMd u err)) None None],
             runManifest := (runManifest st)
               \<lparr>failed := failed (runManifest st) + 1,
                results := results (runManifest st) @ [JobFailed u folder err]\<rparr>\<rparr>)"

definition extractedJob ::
  "platform \<Rightarrow> world \<Rightarrow> PackageOptions \<Rightarrow> runState \<Rightarrow> nat \<Rightarrow> jsstring \<Rightarrow> ExtractResult
     \<Rightarrow> AssetManifest \<Rightarrow> runState" where
  "extractedJob pf w options st index u r assets =
     (case safeArticleFolder pf u (title r) index of
        None \<Rightarrow> st\<lparr>failure := Some (js ''Invalid URL'')\<rparr>
      | Some folder \<Rightarrow>
          let markdown = buildArticleMarkdown r;
              picked = pickAssets assets options;
              d = downloadAssets pf w index u (assetItems picked) (assetBytes st);
              st = st\<lparr>assetBytes := totalBytes d, events := events st @ fetched d\<rparr>
          in (case thrown d of
                Some message \<Rightarrow> st\<lparr>failure := Some message\<rparr>
              | None \<Rightarrow>
                  let oks = okAssets (downloaded d);
                      markdown = rewriteMarkdown markdown oks
                  in st\<lparr>tarEntries := tarEntries st
                          @ map (\<lambda>a. TarFile (folder @ js ''/'' @ relativePath a)
                                   (assetContent a) None None) oks
                          @ [TarFile (folder @ js ''/index.md'') (utf8Encode markdown)
                               None None],
                        runManifest := (runManifest st)
                          \<lparr>success := success (runManifest st) + 1,
                           results := results (runManifest st)
                             @ [JobOk u folder (length (images picked)) (length (files picked))
                                  (length oks)]\<rparr>\<rparr>))"

definition processJob ::
  "platform \<Rightarrow> world \<Rightarrow> PackageOptions \<Rightarrow> runState \<Rightarrow> nat \<times> jsstring \<Rightarrow> runState" where
  "processJob pf w options st job =
     (case failure st of
        Some _ \<Rightarrow> st
      | None \<Rightarrow>
          (case job of
             (index, u) \<Rightarrow>
               (case extractArticleWithAssets w index u of
                  ExtractError err \<Rightarrow> failedJob pf st index u err
                | Extracted r assets \<Rightarrow> extractedJob pf w options st index u r assets)))"

text \<open>
  Lines 292 to 352: every article is extracted first, then the articles are processed one
  after the other, in the order of the request.
\<close>

definition packageRun :: "platform \<Rightarrow> world \<Rightarrow> jsstring list \<Rightarrow> PackageOptions \<Rightarrow> runState" where
  "packageRun pf w urls options =
     foldl (processJob pf w options)
       \<lparr>tarEntries = [],
        runManifest = \<lparr>total = length urls, success = 0, failed = 0, results = []\<rparr>,
        assetBytes = 0,
        events = map ExtractCall urls,
        failure = None\<rparr>
       (zip [0..<length urls] urls)"

definition createTarGz :: "platform \<Rightarrow> int \<Rightarrow> TarEntry list \<Rightarrow> byte list" where
  "createTarGz pf now entries = gzipSync pf (createTar (digest pf) now entries)"

subsection \<open>The request and the response\<close>

datatype jsvalue = JUndefined | JNull | JBool bool | JNumber int | JString jsstring

text \<open>
  The body of a request: \<open>urls\<close> when it is an array of strings, \<open>url\<close> when it is a
  string, and the two options, of any type.
\<close>

record requestBody =
  bodyUrls :: "jsstring list option"
  bodyUrl :: "jsstring option"
  bodyDownloadImages :: jsvalue
  bodyDownloadFiles :: jsvalue

record request =
  httpMethod :: jsstring
  body :: "requestBody option"

datatype payload = NoBody | JsonError jsstring | Gzip "byte list"

record reply =
  status :: nat
  sent :: payload
  calls :: "event list"

definition requestUrls :: "requestBody \<Rightarrow> jsstring list" where
  "requestUrls b =
     (case bodyUrls b of
        Some l \<Rightarrow> l
      | None \<Rightarrow> (case bodyUrl b of None \<Rightarrow> [] | Some u \<Rightarrow> if u \<noteq> [] then [u] else []))"

definition requestOptions :: "requestBody \<Rightarrow> PackageOptions" where
  "requestOptions b =
     \<lparr>downloadImages = (bodyDownloadImages b \<noteq> JBool False),
      downloadFiles = (bodyDownloadFiles b \<noteq> JBool False)\<rparr>"

definition emptyBody :: requestBody where
  "emptyBody = \<lparr>bodyUrls = None, bodyUrl = None, bodyDownloadImages = JUndefined,
                bodyDownloadFiles = JUndefined\<rparr>"

definition validUrl :: "platform \<Rightarrow> jsstring \<Rightarrow> bool" where
  "validUrl pf u =
     (case newURL pf u of
        None \<Rightarrow> False
      | Some p \<Rightarrow> protocol p = js ''http:'' \<or> protocol p = js ''https:'')"

definition manifestEntry :: "platform \<Rightarrow> manifest \<Rightarrow> TarEntry" where
  "manifestEntry pf m =
     TarFile (js ''manifest.json'') (utf8Encode (stringifyManifest pf m @ [0x0A])) None None"

definition handler :: "platform \<Rightarrow> world \<Rightarrow> request \<Rightarrow> reply" where
  "handler pf w req =
     (if httpMethod req = js ''OPTIONS'' then \<lparr>status = 200, sent = NoBody, calls = []\<rparr>
      else if httpMethod req \<noteq> js ''POST''
      then \<lparr>status = 405, sent = JsonError (js ''Method not allowed''), calls = []\<rparr>
      else
        let b = (case body req of None \<Rightarrow> emptyBody | Some b \<Rightarrow> b);
            urls = requestUrls b;
            options = requestOptions b
        in if urls = []
           then \<lparr>status = 400,
                 sent = JsonError ([0x8BF7, 0x6C42, 0x4F53, 0x5FC5, 0x987B, 0x5305, 0x542B]
                          @ js '' url '' @ [0x6216] @ js '' urls''),
                 calls = []\<rparr>
           else if length urls > MAX_URLS
           then \<lparr>status = 400,
                 sent = JsonError ([0x5355, 0x6B21, 0x6700, 0x591A, 0x5904, 0x7406] @ js '' ''
                          @ toStringRadix 10 MAX_URLS @ js '' '' @ [0x4E2A] @ js '' URL''),
                 calls = []\<rparr>
           else (case find (\<lambda>u. \<not> validUrl pf u) urls of
                   Some u \<Rightarrow>
                     \<lparr>status = 400,
                      sent = JsonError ([0x65E0, 0x6548, 0x7684] @ js '' URL: '' @ u),
                      calls = []\<rparr>
                 | None \<Rightarrow>
                     let run = packageRun pf w urls options
                     in (case failure run of
                           Some message \<Rightarrow>
                             \<lparr>status = 400,
                              sent = JsonError
                                (orElse message [0x65E0, 0x6548, 0x7684, 0x8BF7, 0x6C42]),
                              calls = events run\<rparr>
                         | None \<Rightarrow>
                             \<lparr>status = 200,
                              sent = Gzip (createTarGz pf (nowSeconds w)
                                (tarEntries run @ [manifestEntry pf (runManifest run)])),
                              calls = events run\<rparr>)))"

section \<open>The properties stated about the code\<close>

text \<open>Two adjacent white-space characters somewhere in a string.\<close>

fun adjacentWhiteSpace :: "jsstring \<Rightarrow> bool" where
  "adjacentWhiteSpace (a # b # cs) = ((isWhiteSpace a \<and> isWhiteSpace b) \<or> adjacentWhiteSpace (b # cs))"
| "adjacentWhiteSpace _ = False"


text \<open>
  The checksum field of a finished header \<open>h\<close>: offsets 148 to 153 hold the six octal
  digits of the sum of the 512 bytes, taken with offsets 148 to 155 read as spaces;
  offset 154 is NUL and offset 155 a space.
\<close>

definition checksumField :: "byte list \<Rightarrow> bool" where
  "checksumField h =
     (length h = 512
      \<and> take 6 (drop 148 h) =
          map ucast (padStart 6 0x30
            (toStringRadix 8 (sum_list (map unat (bufFill h 0x20 148 156)))))
      \<and> length (toStringRadix 8 (sum_list (map unat (bufFill h 0x20 148 156)))) \<le> 6
      \<and> h ! 154 = 0
      \<and> h ! 155 = 0x20)"


text \<open>A header under construction whose checksum field holds eight spaces.\<close>

definition spaced :: "byte list \<Rightarrow> bool" where
  "spaced h = (length h = 512 \<and> (\<forall>i. 148 \<le> i \<and> i < 156 \<longrightarrow> h ! i = 0x20))"


text \<open>
  A path of 192 bytes with two slashes: 100 letters, a slash, 60 letters, a slash and 30
  letters. And a stand-in for the digest, which the properties do not depend on.
\<close>

definition slashPath :: jsstring where
  "slashPath = replicate 100 0x61 @ js ''/'' @ replicate 60 0x62 @ js ''/'' @ replicate 30 0x63"

definition zeroDigest :: "jsstring \<Rightarrow> jsstring" where
  "zeroDigest s = replicate 64 0x30"

text \<open>Every path that a call of \<open>dedupePath\<close> on \<open>p\<close> can return, whatever the registry.\<close>

definition pathOutcomes :: "(jsstring \<Rightarrow> jsstring) \<Rightarrow> jsstring \<Rightarrow> jsstring set" where
  "pathOutcomes sha256hex p =
     (let idx = lastIndexOf 0x2E p;
          base = (case idx of Some i \<Rightarrow> take i p | None \<Rightarrow> p);
          ext = (case idx of Some i \<Rightarrow> drop i p | None \<Rightarrow> [])
      in insert p (insert (base @ js ''_'' @ shortHash sha256hex p @ ext)
           ((\<lambda>j. candidatePath base j ext) ` {2..<1000})))"

text \<open>
  Stand-ins for the platform and the world, for evaluating the handler at concrete
  requests: a URL parser for \<open>http://host/path\<close> and \<open>ftp://host/path\<close> (a query or a
  fragment is not part of the path), a constant digest, and a world with two articles,
  the first with one image and one file, the second failing, and every fetch answering
  three bytes.
\<close>

definition stubURL :: "jsstring \<Rightarrow> parsedUrl option" where
  "stubURL s =
     (let scheme = takeWhile (\<lambda>c. c \<noteq> 0x3A) s;
          rest = takeWhile (\<lambda>c. c \<noteq> 0x3F \<and> c \<noteq> 0x23) (drop (length scheme + 3) s);
          host = takeWhile (\<lambda>c. c \<noteq> 0x2F) rest;
          p = dropWhile (\<lambda>c. c \<noteq> 0x2F) rest
      in if (scheme = js ''http'' \<or> scheme = js ''ftp'')
            \<and> take 3 (drop (length scheme) s) = js ''://'' \<and> host \<noteq> []
         then Some \<lparr>protocol = scheme @ js '':'', hostname = host,
                     pathname = (if p = [] then js ''/'' else p)\<rparr>
         else None)"

definition stubPlatform :: platform where
  "stubPlatform =
     \<lparr>digest = zeroDigest, newURL = stubURL, decodeURIComponent = Some,
      toLowerCase = (\<lambda>s. s), dispositionName = (\<lambda>s. None),
      stringifyManifest = (\<lambda>m. js ''{}''), gzipSync = (\<lambda>bs. bs)\<rparr>"

definition stubWorld :: world where
  "stubWorld =
     \<lparr>extractArticleWithAssets =
        (\<lambda>index u.
           if index = 0
           then Extracted
                  \<lparr>title = Some (js ''T''), articleContent = js ''see http://h/a.png'',
                   author = None, date = None, articleUrl = u\<rparr>
                  \<lparr>images = [js ''http://h/a.png''], files = [js ''http://h/b.pdf'']\<rparr>
           else ExtractError (js ''boom'')),
      fetch = (\<lambda>job k u referer.
           Responded \<lparr>ok = True, contentType = None, contentDisposition = None,
                      arrayBuffer = Inr [1, 2, 3]\<rparr>),
      completion = (\<lambda>job k. k),
      nowSeconds = 0\<rparr>"

text \<open>
  A URL list that validation refuses: empty, longer than 20, or holding a string that
  does not parse as a URL or whose protocol is neither \<open>http:\<close> nor \<open>https:\<close>.
\<close>

definition rejectedList :: "platform \<Rightarrow> jsstring list \<Rightarrow> bool" where
  "rejectedList pf urls =
     (urls = [] \<or> 20 < length urls
      \<or> list_ex (\<lambda>u. case newURL pf u of
                        None \<Rightarrow> True
                      | Some p \<Rightarrow> protocol p \<noteq> js ''http:'' \<and> protocol p \<noteq> js ''https:'') urls)"

text \<open>\<open>occursIn s t\<close>: the string \<open>s\<close> is a substring of \<open>t\<close>.\<close>

fun occursIn :: "jsstring \<Rightarrow> jsstring \<Rightarrow> bool" where
  "occursIn s [] = (s = [])"
| "occursIn s (x # xs) = (take (length s) (x # xs) = s \<or> occursIn s xs)"

text \<open>Reading a number back from its digits, most significant digit first.\<close>

definition digitValue :: "jschar \<Rightarrow> nat" where
  "digitValue c = unat c - 48"

definition readRadix :: "nat \<Rightarrow> jsstring \<Rightarrow> nat" where
  "readRadix r s = foldl (\<lambda>n c. n * r + digitValue c) 0 s"

text \<open>
  The folder of an entry: the part of its path before the first slash, for a path that
  has one. The folders of a list of entries, each once, in the order of the entries;
  the entries in a folder; the rest of a path behind its folder.
\<close>

definition topFolder :: "jsstring \<Rightarrow> jsstring" where
  "topFolder p = takeWhile (\<lambda>c. c \<noteq> 0x2F) p"

definition insideFolder :: "jsstring \<Rightarrow> jsstring" where
  "insideFolder p = drop 1 (dropWhile (\<lambda>c. c \<noteq> 0x2F) p)"

definition inFolder :: "jsstring \<Rightarrow> TarEntry \<Rightarrow> bool" where
  "inFolder f e = (0x2F \<in> set (path e) \<and> topFolder (path e) = f)"

definition topFolders :: "TarEntry list \<Rightarrow> jsstring list" where
  "topFolders es =
     remdups (map (\<lambda>e. topFolder (path e)) (filter (\<lambda>e. 0x2F \<in> set (path e)) es))"

text \<open>The folder of the article at index \<open>i\<close>: no slash, and the three digits of \<open>i + 1\<close> in front.\<close>

definition folderOf :: "nat \<Rightarrow> jsstring \<Rightarrow> bool" where
  "folderOf i f = (0x2F \<notin> set f \<and> take 3 f = padStart 3 0x30 (toStringRadix 10 (i + 1)))"

text \<open>The prefix of the relative path of every asset of a kind.\<close>

definition assetPrefix :: "AssetKind \<Rightarrow> jsstring" where
  "assetPrefix kind = js ''assets/'' @ kindName kind @ js ''/''"

definition assetsBytes :: "DownloadedAsset list \<Rightarrow> nat" where
  "assetsBytes as = sum_list (map (\<lambda>a. length (assetContent a)) as)"

text \<open>
  What a run of the download pool, or a part of it, can do to its state: the counter
  grows, by at least the bytes of the assets that are newly kept, and stays within the
  ceiling; every new call of \<open>fetch\<close> and every newly kept asset is of an item of the
  list.
\<close>

definition poolProgress ::
  "(AssetKind \<times> jsstring) list \<Rightarrow> jsstring \<Rightarrow> downloadState \<Rightarrow> downloadState \<Rightarrow> bool" where
  "poolProgress items referer st d =
     (totalBytes st \<le> totalBytes d
      \<and> (totalBytes st \<le> MAX_TOTAL_ASSET_BYTES \<longrightarrow> totalBytes d \<le> MAX_TOTAL_ASSET_BYTES)
      \<and> length (downloaded d) = length (downloaded st)
      \<and> (\<forall>e \<in> set (fetched d). e \<in> set (fetched st)
            \<or> (\<exists>item \<in> set items. e = FetchCall (fst item) (snd item) referer))
      \<and> (\<forall>a. Some a \<in> set (downloaded d) \<longrightarrow> Some a \<in> set (downloaded st)
            \<or> (\<exists>item \<in> set items. originalUrl a = snd item
                  \<and> startsWith (relativePath a) (assetPrefix (fst item))))
      \<and> assetsBytes (okAssets (downloaded d)) + totalBytes st
            \<le> assetsBytes (okAssets (downloaded st)) + totalBytes d)"

text \<open>The calls of \<open>fetch\<close> for a list of items, and the indices in flight being of the list.\<close>

definition fetchLog :: "jsstring \<Rightarrow> (AssetKind \<times> jsstring) list \<Rightarrow> event list" where
  "fetchLog referer items = map (\<lambda>item. FetchCall (fst item) (snd item) referer) items"

definition inRange :: "(AssetKind \<times> jsstring) list \<Rightarrow> downloadState \<Rightarrow> bool" where
  "inRange items st = (\<forall>k \<in> set (inFlight st). k < length items)"

text \<open>The state of the pool before its workers start.\<close>

definition poolStart :: "(AssetKind \<times> jsstring) list \<Rightarrow> nat \<Rightarrow> downloadState" where
  "poolStart items b =
     \<lparr>downloaded = replicate (length items) None, usedPaths = {}, totalBytes = b,
      fetched = [], thrown = None, cursor = 0, inFlight = []\<rparr>"

text \<open>
  The calls of \<open>fetch\<close> that a pool has made are those for the items before its cursor;
  and, unless a call threw, a call is in flight as long as the cursor is inside the list.
\<close>

definition logged :: "jsstring \<Rightarrow> (AssetKind \<times> jsstring) list \<Rightarrow> downloadState \<Rightarrow> bool" where
  "logged referer items s = (fetched s = fetchLog referer (take (cursor s) items))"

definition busy :: "(AssetKind \<times> jsstring) list \<Rightarrow> downloadState \<Rightarrow> bool" where
  "busy items s = (thrown s = None \<longrightarrow> cursor s < length items \<longrightarrow> inFlight s \<noteq> [])"

fun contentLength :: "TarEntry \<Rightarrow> nat" where
  "contentLength (TarFile p c md mt) = length c"
| "contentLength (TarDir p md mt) = 0"

text \<open>
  The bytes of the asset entries of an archive (the entries under \<open>assets/\<close> of their
  folder), the calls of \<open>fetch\<close> for a kind of asset, and the entries under
  \<open>assets/{kind}/\<close> of their folder.
\<close>

definition assetEntryBytes :: "TarEntry list \<Rightarrow> nat" where
  "assetEntryBytes es =
     sum_list (map contentLength
       (filter (\<lambda>e. startsWith (insideFolder (path e)) (js ''assets/'')) es))"

fun isFetchOf :: "AssetKind \<Rightarrow> event \<Rightarrow> bool" where
  "isFetchOf kind (FetchCall k u referer) = (k = kind)"
| "isFetchOf kind (ExtractCall u) = False"

definition fetchesOf :: "AssetKind \<Rightarrow> event list \<Rightarrow> event list" where
  "fetchesOf kind es = filter (isFetchOf kind) es"

definition entriesUnder :: "AssetKind \<Rightarrow> TarEntry list \<Rightarrow> TarEntry list" where
  "entriesUnder kind es = filter (\<lambda>e. startsWith (insideFolder (path e)) (assetPrefix kind)) es"

text \<open>What a job leaves in its folder: the placeholder alone, or entries ending in \<open>index.md\<close>.\<close>

fun folderContent :: "jobRecord \<Rightarrow> TarEntry list \<Rightarrow> bool" where
  "folderContent (JobFailed u f err) es =
     (es = [TarFile (f @ js ''/error.md'') (utf8Encode (errorMd u err)) None None])"
| "folderContent (JobOk u f ni nf nd) es =
     (es \<noteq> [] \<and> path (last es) = f @ js ''/index.md''
      \<and> length es = nd + 1)"

definition assetEntry :: "jsstring \<Rightarrow> DownloadedAsset \<Rightarrow> TarEntry" where
  "assetEntry folder a = TarFile (folder @ js ''/'' @ relativePath a) (assetContent a) None None"

text \<open>The invariants of the loop over the articles.\<close>

definition bytesInvariant :: "runState \<Rightarrow> bool" where
  "bytesInvariant st =
     (assetEntryBytes (tarEntries st) \<le> assetBytes st
      \<and> assetBytes st \<le> MAX_TOTAL_ASSET_BYTES)"

fun kindEnabled :: "PackageOptions \<Rightarrow> AssetKind \<Rightarrow> bool" where
  "kindEnabled options Images = downloadImages options"
| "kindEnabled options Files = downloadFiles options"

definition kindFree :: "AssetKind \<Rightarrow> runState \<Rightarrow> bool" where
  "kindFree kind st =
     (fetchesOf kind (events st) = [] \<and> entriesUnder kind (tarEntries st) = [])"

fun isFailed :: "jobRecord \<Rightarrow> bool" where
  "isFailed (JobFailed u f err) = True"
| "isFailed (JobOk u f ni nf nd) = False"

text \<open>
  A record of the manifest agrees with what the extractor answered for its URL: a failed
  record carries the extractor's error, and there is one exactly when the extractor
  answered with an error; the record of an extracted article counts the images and
  files that \<open>pickAssets\<close> keeps.
\<close>

definition jobMatches ::
  "world \<Rightarrow> PackageOptions \<Rightarrow> nat \<Rightarrow> jsstring \<Rightarrow> jobRecord \<Rightarrow> bool" where
  "jobMatches w options i u r =
     (case extractArticleWithAssets w i u of
        ExtractError err \<Rightarrow> r = JobFailed u (jobFolder r) err
      | Extracted res assets \<Rightarrow>
          r = JobOk u (jobFolder r) (length (images (pickAssets assets options)))
                (length (files (pickAssets assets options))) (downloadedCount r))"

text \<open>
  The loop over the articles after the URLs \<open>seen\<close>, while no error was thrown: one
  record per URL, in order, each with the folder of its index; the folders of the entries
  are the folders of the records; and each folder holds what its record says.
\<close>

definition manifestInvariant ::
  "world \<Rightarrow> PackageOptions \<Rightarrow> nat \<Rightarrow> jsstring list \<Rightarrow> runState \<Rightarrow> bool" where
  "manifestInvariant w options n seen st =
     (total (runManifest st) = n
      \<and> (failure st = None \<longrightarrow>
           success (runManifest st) = length (filter (\<lambda>r. \<not> isFailed r) (results (runManifest st)))
           \<and> failed (runManifest st) = length (filter isFailed (results (runManifest st)))
           \<and> map jobUrl (results (runManifest st)) = seen
           \<and> (\<forall>i < length seen. folderOf i (jobFolder (results (runManifest st) ! i))
                 \<and> jobMatches w options i (seen ! i) (results (runManifest st) ! i))
           \<and> topFolders (tarEntries st) = map jobFolder (results (runManifest st))
           \<and> (\<forall>e \<in> set (tarEntries st). 0x2F \<in> set (path e))
           \<and> (\<forall>r \<in> set (results (runManifest st)).
                 folderContent r (filter (inFolder (jobFolder r)) (tarEntries st)))))"

text \<open>
  The calls of a request that is answered with an archive: every URL is handed to the
  extractor, then, article by article, \<open>fetch\<close> is called for every asset that
  \<open>pickAssets\<close> keeps, the images before the files.
\<close>

definition jobFetches :: "world \<Rightarrow> PackageOptions \<Rightarrow> nat \<times> jsstring \<Rightarrow> event list" where
  "jobFetches w options job =
     (case job of
        (i, u) \<Rightarrow>
          (case extractArticleWithAssets w i u of
             ExtractError err \<Rightarrow> []
           | Extracted r assets \<Rightarrow> fetchLog u (assetItems (pickAssets assets options))))"

definition callLog :: "world \<Rightarrow> PackageOptions \<Rightarrow> jsstring list \<Rightarrow> event list" where
  "callLog w options urls =
     map ExtractCall urls
       @ concat (map (jobFetches w options) (zip [0..<length urls] urls))"

definition eventsInvariant ::
  "world \<Rightarrow> PackageOptions \<Rightarrow> event list \<Rightarrow> jsstring list \<Rightarrow> runState \<Rightarrow> bool" where
  "eventsInvariant w options base seen st =
     (failure st = None \<longrightarrow>
        events st = base @ concat (map (jobFetches w options) (zip [0..<length seen] seen)))"

text \<open>The entries that the handler hands to \<open>createTarGz\<close>, lines 292 to 360.\<close>

definition archived :: "platform \<Rightarrow> world \<Rightarrow> jsstring list \<Rightarrow> PackageOptions \<Rightarrow> TarEntry list" where
  "archived pf w urls options =
     tarEntries (packageRun pf w urls options)
       @ [manifestEntry pf (runManifest (packageRun pf w urls options))]"

text \<open>
  An article that shows one picture twice, at \<open>http://h/a.png\<close> and scaled at
  \<open>http://h/a.png?x\<close>, in a world that answers every fetch with three bytes.
\<close>

definition overlapWorld :: world where
  "overlapWorld =
     \<lparr>extractArticleWithAssets =
        (\<lambda>index u.
           Extracted
             \<lparr>title = Some (js ''T''),
              articleContent = js ''![](http://h/a.png) ![](http://h/a.png?x)'',
              author = None, date = None, articleUrl = u\<rparr>
             \<lparr>images = [js ''http://h/a.png'', js ''http://h/a.png?x''], files = []\<rparr>),
      fetch = (\<lambda>job k u referer.
           Responded \<lparr>ok = True, contentType = None, contentDisposition = None,
                      arrayBuffer = Inr [1, 2, 3]\<rparr>),
      completion = (\<lambda>job k. k),
      nowSeconds = 0\<rparr>"

text \<open>The index document of the first article of the stand-in world.\<close>

definition stubIndex :: "byte list" where
  "stubIndex =
     utf8Encode (js ''# T'' @ [0x0A] @ js ''**'' @ [0x6765, 0x6E90] @ js ''**: http://h/x''
       @ [0x0A, 0x0A] @ js ''---'' @ [0x0A, 0x0A] @ js ''see assets/images/h/a.png'' @ [0x0A])"


text \<open>
  Requests for the first article of the stand-in world: one that turns the files off with
  the boolean \<open>false\<close> and leaves the images to the string \<open>"false"\<close>, and its body.
\<close>

definition imagesBody :: requestBody where
  "imagesBody =
     \<lparr>bodyUrls = None, bodyUrl = Some (js ''http://h/x''),
      bodyDownloadImages = JString (js ''false''), bodyDownloadFiles = JBool False\<rparr>"

definition imagesRequest :: request where
  "imagesRequest = \<lparr>httpMethod = js ''POST'', body = Some imagesBody\<rparr>"

text \<open>A request for the article that shows one picture twice, with every option absent.\<close>

definition overlapRequest :: request where
  "overlapRequest =
     \<lparr>httpMethod = js ''POST'',
      body = Some \<lparr>bodyUrls = None, bodyUrl = Some (js ''http://h/x''),
                    bodyDownloadImages = JUndefined, bodyDownloadFiles = JUndefined\<rparr>\<rparr>"

section \<open>Buffers and numbers\<close>

declare toStringRadix.simps [simp del]

lemma length_bufWrite [simp]: "length (bufWrite buf off bs) = length buf"
  by (induction bs arbitrary: buf off) auto

lemma nth_bufWrite:
  "i < length buf \<Longrightarrow>
   bufWrite buf off bs ! i = (if off \<le> i \<and> i < off + length bs then bs ! (i - off) else buf ! i)"
proof (induction bs arbitrary: buf off)
  case Nil
  then show ?case by auto
next
  case (Cons b bs)
  have "bufWrite (buf[off := b]) (Suc off) bs ! i =
        (if Suc off \<le> i \<and> i < Suc off + length bs then bs ! (i - Suc off) else buf[off := b] ! i)"
    using Cons.prems by (intro Cons.IH) simp
  then show ?case
    using Cons.prems by (auto simp: nth_Cons' nth_list_update)
qed

lemma unitBytes_pos: "1 \<le> unitBytes c"
  by (simp add: unitBytes_def)

lemma length_le_byteLength: "length s \<le> byteLength s"
proof (induction s rule: byteLength.induct)
  case 1
  show ?case by simp
next
  case (2 c)
  show ?case using unitBytes_pos [of c] by simp
next
  case (3 c d cs)
  show ?case using 3 unitBytes_pos [of c] by (auto split: if_splits)
qed

lemma writeString_eq:
  "writeString h off len v = bufWrite h off (map ucast (take len v))"
proof -
  have "length (take len v) \<le> byteLength (take len v)" by (rule length_le_byteLength)
  then have "length (take len v) \<le> min len (byteLength (take len v))" by simp
  then show ?thesis by (simp add: writeString_def Let_def)
qed

lemma length_writeString [simp]: "length (writeString h off len v) = length h"
  by (simp add: writeString_eq)

lemma nth_writeString_outside:
  "i < length h \<Longrightarrow> i < off \<or> off + len \<le> i \<Longrightarrow> writeString h off len v ! i = h ! i"
  by (auto simp: writeString_eq nth_bufWrite)

lemma length_writeOctal [simp]: "length (writeOctal h off len v) = length h"
  by (simp add: writeOctal_def Let_def)

lemma nth_writeOctal_outside:
  "i < length h \<Longrightarrow> 0 < len \<Longrightarrow> i < off \<or> off + len \<le> i \<Longrightarrow> writeOctal h off len v ! i = h ! i"
  by (auto simp: writeOctal_def Let_def nth_list_update nth_writeString_outside)

lemma spaced_bufFill: "length h = 512 \<Longrightarrow> spaced (bufFill h 0x20 148 156)"
  by (auto simp: spaced_def bufFill_def nth_bufWrite)

lemma spaced_update: "spaced h \<Longrightarrow> 156 \<le> k \<Longrightarrow> spaced (h[k := v])"
  by (simp add: spaced_def nth_list_update)

lemma spaced_writeString: "spaced h \<Longrightarrow> 156 \<le> off \<Longrightarrow> spaced (writeString h off len v)"
  by (simp add: spaced_def nth_writeString_outside)

lemma spaced_writeOctal:
  "spaced h \<Longrightarrow> 156 \<le> off \<Longrightarrow> 0 < len \<Longrightarrow> spaced (writeOctal h off len v)"
  by (simp add: spaced_def nth_writeOctal_outside)

lemma spaced_headerFields: "spaced (headerFields sha256hex p sz md mt flag)"
  unfolding headerFields_def Let_def
  by (intro spaced_writeString spaced_writeOctal spaced_update spaced_bufFill) simp_all


lemma sum_bytes_le: "sum_list (map unat (h :: byte list)) \<le> 255 * length h"
proof (induction h)
  case Nil
  show ?case by simp
next
  case (Cons b h)
  have "unat b < 2 ^ LENGTH(8)" by (rule unsigned_less)
  then have "unat b \<le> 255" by simp
  with Cons show ?case by simp
qed

lemma length_toStringRadix:
  "2 \<le> r \<Longrightarrow> n < r ^ k \<Longrightarrow> 0 < k \<Longrightarrow> length (toStringRadix r n) \<le> k"
proof (induction k arbitrary: n)
  case 0
  then show ?case by simp
next
  case (Suc k)
  show ?case
  proof (cases "n < r")
    case True
    then show ?thesis by (subst toStringRadix.simps) simp
  next
    case False
    with Suc.prems have k: "0 < k" by (cases k) auto
    from Suc.prems have "n < r ^ k * r" by (simp add: mult.commute)
    then have "n div r < r ^ k" by (rule less_mult_imp_div_less)
    with Suc.IH Suc.prems k have "length (toStringRadix r (n div r)) \<le> k" by simp
    then show ?thesis using False Suc.prems by (subst toStringRadix.simps) simp
  qed
qed

lemma createHeader_checksumField:
  "checksumField (createHeader sha256hex p sz md mt flag)"
proof -
  define h0 where "h0 = headerFields sha256hex p sz md mt flag"
  define total where "total = sum_list (map unat h0)"
  define chk where "chk = padStart 6 0x30 (toStringRadix 8 total)"
  define bytes :: "byte list" where "bytes = map ucast chk"
  define h3 where "h3 = (bufWrite h0 148 bytes)[154 := 0, 155 := 0x20]"
  have sp: "spaced h0" unfolding h0_def by (rule spaced_headerFields)
  then have len0: "length h0 = 512" by (simp add: spaced_def)
  have "total \<le> 255 * length h0" unfolding total_def by (rule sum_bytes_le)
  then have "total < 8 ^ 6" using len0 by simp
  then have lt: "length (toStringRadix 8 total) \<le> 6"
    by (intro length_toStringRadix) simp_all
  then have lc: "length chk = 6" by (simp add: chk_def padStart_def)
  then have lb: "length bytes = 6" by (simp add: bytes_def)
  have ch: "createHeader sha256hex p sz md mt flag = h3"
    using lc by (simp add: createHeader_def Let_def writeString_eq h0_def total_def chk_def
      bytes_def h3_def)
  have len3: "length h3 = 512" using len0 by (simp add: h3_def)
  have nth3: "h3 ! i = (if i = 155 then 0x20 else if i = 154 then 0
                        else if 148 \<le> i \<and> i < 154 then bytes ! (i - 148) else h0 ! i)"
    if "i < 512" for i
    using that len0 lb by (simp add: h3_def nth_list_update nth_bufWrite)
  have fill: "bufFill h3 0x20 148 156 = h0"
  proof (rule nth_equalityI)
    show "length (bufFill h3 0x20 148 156) = length h0"
      using len0 len3 by (simp add: bufFill_def)
  next
    fix i assume "i < length (bufFill h3 0x20 148 156)"
    then have i: "i < 512" using len3 by (simp add: bufFill_def)
    show "bufFill h3 0x20 148 156 ! i = h0 ! i"
    proof (cases "148 \<le> i \<and> i < 156")
      case True
      then have "h0 ! i = 0x20" using sp by (simp add: spaced_def)
      moreover have "bufFill h3 0x20 148 156 ! i = 0x20"
        using True i len3 by (auto simp: bufFill_def nth_bufWrite)
      ultimately show ?thesis by simp
    next
      case False
      then have "bufFill h3 0x20 148 156 ! i = h3 ! i"
        using i len3 by (auto simp: bufFill_def nth_bufWrite)
      also have "\<dots> = h0 ! i" using False i by (auto simp: nth3)
      finally show ?thesis .
    qed
  qed
  have field: "take 6 (drop 148 h3) = bytes"
  proof (rule nth_equalityI)
    show "length (take 6 (drop 148 h3)) = length bytes" using len3 lb by simp
  next
    fix i assume "i < length (take 6 (drop 148 h3))"
    then have i: "i < 6" by simp
    then have "take 6 (drop 148 h3) ! i = h3 ! (148 + i)" using len3 by simp
    also have "\<dots> = bytes ! i" using i by (simp add: nth3)
    finally show "take 6 (drop 148 h3) ! i = bytes ! i" .
  qed
  have a: "h3 ! 154 = 0" and b: "h3 ! 155 = 0x20" by (simp_all add: nth3)
  show ?thesis
    unfolding checksumField_def ch fill
    using len3 field lt a b by (simp add: bytes_def chk_def total_def)
qed

lemma entryHeader_checksumField: "checksumField (entryHeader sha256hex now e)"
  by (cases e) (simp_all add: createHeader_checksumField)

text \<open>
  Claim C1. Every header that \<open>createHeader\<close> builds, and so the header of every entry
  that \<open>createTar\<close> encodes (the synthesized directories and the caller's entries), has
  512 bytes, and its checksum field holds at offsets 148 to 153 the six-digit zero-padded
  octal representation of the sum of the 512 header bytes taken with offsets 148 to 155
  as spaces, then NUL at offset 154 and a space at offset 155.
\<close>

theorem createTar_checksum:
  "checksumField (createHeader sha256hex p sz md mt flag)
   \<and> list_all (\<lambda>e. checksumField (entryHeader sha256hex now e)) (allEntries entries)
   \<and> createTar sha256hex now entries =
       concat (map (entryBlocks sha256hex now) (allEntries entries)) @ replicate 1024 0"
  by (simp add: createHeader_checksumField entryHeader_checksumField list_all_iff createTar_def)

section \<open>The sanitizer\<close>

lemma set_collapseWhiteSpace: "set (collapseWhiteSpace s) \<subseteq> insert 0x20 (set s)"
proof (induction s rule: collapseWhiteSpace.induct)
  case 1
  show ?case by simp
next
  case (2 c cs)
  have "set (dropWhile isWhiteSpace cs) \<subseteq> set cs"
    by (simp add: set_dropWhileD subsetI)
  with 2 show ?case by (auto split: if_splits)
qed

lemma white_collapseWhiteSpace:
  "c \<in> set (collapseWhiteSpace s) \<Longrightarrow> isWhiteSpace c \<Longrightarrow> c = 0x20"
proof (induction s rule: collapseWhiteSpace.induct)
  case 1
  then show ?case by simp
next
  case (2 d ds)
  then show ?case by (auto split: if_splits)
qed

lemma hd_collapseWhiteSpace:
  "s \<noteq> [] \<Longrightarrow> \<not> isWhiteSpace (hd s) \<Longrightarrow>
   collapseWhiteSpace s \<noteq> [] \<and> hd (collapseWhiteSpace s) = hd s"
  by (cases s) auto

lemma collapse_nonempty: "s \<noteq> [] \<Longrightarrow> collapseWhiteSpace s \<noteq> []"
  by (cases s) auto

lemma adjacent_Cons:
  "adjacentWhiteSpace (a # s) = ((s \<noteq> [] \<and> isWhiteSpace a \<and> isWhiteSpace (hd s)) \<or> adjacentWhiteSpace s)"
  by (cases s) auto

lemma hd_dropWhile_white: "dropWhile isWhiteSpace cs \<noteq> [] \<Longrightarrow> \<not> isWhiteSpace (hd (dropWhile isWhiteSpace cs))"
  using hd_dropWhile by blast

lemma adjacent_collapseWhiteSpace: "\<not> adjacentWhiteSpace (collapseWhiteSpace s)"
proof (induction s rule: collapseWhiteSpace.induct)
  case 1
  show ?case by simp
next
  case (2 c cs)
  show ?case
  proof (cases "isWhiteSpace c")
    case True
    let ?r = "dropWhile isWhiteSpace cs"
    have a: "\<not> adjacentWhiteSpace (collapseWhiteSpace ?r)" using 2 True by simp
    have b: "collapseWhiteSpace ?r \<noteq> [] \<Longrightarrow> \<not> isWhiteSpace (hd (collapseWhiteSpace ?r))"
    proof -
      assume ne: "collapseWhiteSpace ?r \<noteq> []"
      then have "?r \<noteq> []" using collapseWhiteSpace.simps(1) by metis
      then have "\<not> isWhiteSpace (hd ?r)" by (rule hd_dropWhile_white)
      with \<open>?r \<noteq> []\<close> show ?thesis using hd_collapseWhiteSpace by metis
    qed
    show ?thesis using True a b by (auto simp: adjacent_Cons)
  next
    case False
    then show ?thesis using 2 by (auto simp: adjacent_Cons)
  qed
qed

lemma adjacent_append:
  "adjacentWhiteSpace xs \<or> adjacentWhiteSpace ys \<Longrightarrow> adjacentWhiteSpace (xs @ ys)"
proof (induction xs)
  case Nil
  then show ?case by simp
next
  case (Cons a xs)
  show ?case
  proof (cases xs)
    case Nil
    with Cons.prems show ?thesis by (simp add: adjacent_Cons)
  next
    case (Cons b zs)
    with Cons.prems Cons.IH show ?thesis by auto
  qed
qed

lemma trim_decomp: "\<exists>a b. s = a @ trim s @ b"
proof -
  let ?t = "dropWhile isWhiteSpace s"
  have "s = takeWhile isWhiteSpace s @ ?t" by simp
  moreover have "rev ?t = takeWhile isWhiteSpace (rev ?t) @ dropWhile isWhiteSpace (rev ?t)" by simp
  then have "?t = rev (dropWhile isWhiteSpace (rev ?t)) @ rev (takeWhile isWhiteSpace (rev ?t))"
    by (metis rev_append rev_rev_ident)
  ultimately show ?thesis unfolding trim_def by metis
qed

lemma adjacent_trim: "\<not> adjacentWhiteSpace s \<Longrightarrow> \<not> adjacentWhiteSpace (trim s)"
proof -
  assume h: "\<not> adjacentWhiteSpace s"
  obtain a b where s: "s = a @ trim s @ b" using trim_decomp by blast
  show ?thesis
  proof
    assume "adjacentWhiteSpace (trim s)"
    then have "adjacentWhiteSpace (trim s @ b)" by (simp add: adjacent_append)
    then have "adjacentWhiteSpace (a @ trim s @ b)" by (simp add: adjacent_append)
    with s h show False by simp
  qed
qed

lemma adjacent_take: "\<not> adjacentWhiteSpace s \<Longrightarrow> \<not> adjacentWhiteSpace (take n s)"
  by (metis adjacent_append append_take_drop_id)

lemma set_trim: "set (trim s) \<subseteq> set s"
  using trim_decomp [of s] by (metis Un_upper1 Un_upper2 set_append subset_trans)

lemma hd_trim: "trim s \<noteq> [] \<Longrightarrow> \<not> isWhiteSpace (hd (trim s))"
proof -
  assume ne: "trim s \<noteq> []"
  let ?t = "dropWhile isWhiteSpace s"
  have "?t = trim s @ rev (takeWhile isWhiteSpace (rev ?t))"
    unfolding trim_def by (metis rev_append rev_rev_ident takeWhile_dropWhile_id)
  then have "hd ?t = hd (trim s)" and "?t \<noteq> []" using ne by (metis hd_append2, metis append_is_Nil_conv)
  then show ?thesis using hd_dropWhile_white by metis
qed

lemma last_trim: "trim s \<noteq> [] \<Longrightarrow> \<not> isWhiteSpace (last (trim s))"
proof -
  assume ne: "trim s \<noteq> []"
  let ?u = "dropWhile isWhiteSpace (rev (dropWhile isWhiteSpace s))"
  have u: "?u \<noteq> []" using ne by (simp add: trim_def)
  then have "\<not> isWhiteSpace (hd ?u)" by (rule hd_dropWhile_white)
  moreover have "last (trim s) = hd ?u" using u by (simp add: trim_def last_rev)
  ultimately show ?thesis by simp
qed


lemma set_sanitized_input:
  "set (map (\<lambda>c. if c \<in> unsafeChars then 0x5F else c) (filter (\<lambda>c. c \<noteq> 0) input))
     \<inter> insert 0 unsafeChars = {}"
  by (auto simp: unsafeChars_def)

lemma hd_take_trim: "take (80::nat) (trim s) \<noteq> [] \<Longrightarrow> \<not> isWhiteSpace (hd (take 80 (trim s)))"
proof -
  assume ne: "take (80::nat) (trim s) \<noteq> []"
  then have t: "trim s \<noteq> []" by auto
  have "hd (take 80 (trim s)) = hd (trim s)" by simp
  with hd_trim [OF t] show ?thesis by simp
qed

lemma last_take_trim:
  "take (80::nat) (trim s) \<noteq> [] \<Longrightarrow> length (take (80::nat) (trim s)) < 80 \<Longrightarrow>
   \<not> isWhiteSpace (last (take 80 (trim s)))"
proof -
  assume ne: "take (80::nat) (trim s) \<noteq> []" and l: "length (take (80::nat) (trim s)) < 80"
  from l have "length (trim s) < 80" by (simp add: min_def split: if_splits)
  then have e: "take 80 (trim s) = trim s" by simp
  with ne have "trim s \<noteq> []" by simp
  from last_trim [OF this] e show ?thesis by simp
qed

lemma set_take_trim_collapse: "set (take n (trim (collapseWhiteSpace s))) \<subseteq> insert 0x20 (set s)"
proof -
  have "set (take n (trim (collapseWhiteSpace s))) \<subseteq> set (trim (collapseWhiteSpace s))"
    by (rule set_take_subset)
  also have "\<dots> \<subseteq> set (collapseWhiteSpace s)" by (rule set_trim)
  also have "\<dots> \<subseteq> insert 0x20 (set s)" by (rule set_collapseWhiteSpace)
  finally show ?thesis .
qed

lemma white_take_trim_collapse:
  "c \<in> set (take n (trim (collapseWhiteSpace s))) \<Longrightarrow> isWhiteSpace c \<Longrightarrow> c = 0x20"
proof -
  assume c: "c \<in> set (take n (trim (collapseWhiteSpace s)))" and w: "isWhiteSpace c"
  have "set (take n (trim (collapseWhiteSpace s))) \<subseteq> set (trim (collapseWhiteSpace s))"
    by (rule set_take_subset)
  also have "\<dots> \<subseteq> set (collapseWhiteSpace s)" by (rule set_trim)
  finally have "c \<in> set (collapseWhiteSpace s)" using c by blast
  then show ?thesis using w by (rule white_collapseWhiteSpace)
qed

lemma disjoint_insert_sub:
  "A \<subseteq> insert x B \<Longrightarrow> B \<inter> C = {} \<Longrightarrow> x \<notin> C \<Longrightarrow> A \<inter> C = {}"
  by blast

lemma disjoint_insert_parts: "A \<inter> insert x C = {} \<Longrightarrow> x \<notin> A \<and> A \<inter> C = {}"
  by blast

text \<open>
  Claim C8, as the code has it. For every input, the output of \<open>sanitizeSegment\<close> is at
  most 80 code units long, contains no NUL and none of the nine path-unsafe characters;
  its only white space is the single space U+0020, never two in a row and never in front.
  A space can be left at the end only by the truncation to 80: an output shorter than 80
  does not end in white space. Control characters other than NUL and the white-space
  ones are not removed (see the counterexample).
\<close>

theorem sanitizeSegment_output:
  "length (sanitizeSegment input) \<le> 80
   \<and> 0 \<notin> set (sanitizeSegment input)
   \<and> set (sanitizeSegment input) \<inter> unsafeChars = {}
   \<and> (\<forall>c \<in> set (sanitizeSegment input). isWhiteSpace c \<longrightarrow> c = 0x20)
   \<and> \<not> adjacentWhiteSpace (sanitizeSegment input)
   \<and> (sanitizeSegment input \<noteq> [] \<longrightarrow> \<not> isWhiteSpace (hd (sanitizeSegment input)))
   \<and> (sanitizeSegment input \<noteq> [] \<and> length (sanitizeSegment input) < 80
        \<longrightarrow> \<not> isWhiteSpace (last (sanitizeSegment input)))"
proof -
  define m where "m = map (\<lambda>c. if c \<in> unsafeChars then 0x5F else c) (filter (\<lambda>c. c \<noteq> 0) input)"
  define out where "out = take (80::nat) (trim (collapseWhiteSpace m))"
  have out: "sanitizeSegment input = out" by (simp add: sanitizeSegment_def out_def m_def)
  have m: "set m \<inter> insert 0 unsafeChars = {}"
    unfolding m_def by (rule set_sanitized_input)
  have sp: "(0x20::jschar) \<notin> insert 0 unsafeChars" by (simp add: unsafeChars_def)
  have sub: "set out \<subseteq> insert 0x20 (set m)" unfolding out_def by (rule set_take_trim_collapse)
  have bad: "set out \<inter> insert 0 unsafeChars = {}" using sub m sp by (rule disjoint_insert_sub)
  have len: "length out \<le> 80" by (simp add: out_def)
  have zero: "0 \<notin> set out" using disjoint_insert_parts [OF bad] by simp
  have uns: "set out \<inter> unsafeChars = {}" using disjoint_insert_parts [OF bad] by simp
  have white: "\<forall>c \<in> set out. isWhiteSpace c \<longrightarrow> c = 0x20"
    unfolding out_def using white_take_trim_collapse by blast
  have adj: "\<not> adjacentWhiteSpace out"
    unfolding out_def by (intro adjacent_take adjacent_trim adjacent_collapseWhiteSpace)
  have first: "out \<noteq> [] \<longrightarrow> \<not> isWhiteSpace (hd out)"
    unfolding out_def using hd_take_trim by blast
  have final: "out \<noteq> [] \<and> length out < 80 \<longrightarrow> \<not> isWhiteSpace (last out)"
    unfolding out_def using last_take_trim by blast
  show ?thesis
    unfolding out by (intro conjI len zero uns white adj first final)
qed

text \<open>The theorem at the input \<open>" a:b   c "\<close>, whose output is \<open>"a_b c"\<close>.\<close>

theorem sanitizeSegment_output_witness:
  "sanitizeSegment (js '' a:b   c '') = js ''a_b c''
   \<and> length (js ''a_b c'') < 80 \<and> \<not> isWhiteSpace (last (js ''a_b c''))
   \<and> \<not> isWhiteSpace (hd (js ''a_b c''))
   \<and> isWhiteSpace 0x20 \<and> 0x20 \<in> set (js ''a_b c'')"
proof -
  have e: "sanitizeSegment (js '' a:b   c '') = js ''a_b c''"
    by (simp add: sanitizeSegment_def js_def trim_def isWhiteSpace_def unsafeChars_def)
  show ?thesis
    using sanitizeSegment_output [of "js '' a:b   c ''"] unfolding e
    by (simp add: js_def isWhiteSpace_def)
qed

text \<open>
  Claim C8 as stated fails twice: the control character ESC (U+001B) passes through
  unchanged, and an input of 79 letters, a space and one more letter is cut behind the
  space, so that the output ends in white space.
\<close>

theorem sanitizeSegment_claim_counterexample:
  "0x1B \<in> set (sanitizeSegment [0x1B])
   \<and> isWhiteSpace (last (sanitizeSegment (js ''aaaaaaaaaaaaaaaaaaaaaaaaaaaaaaaaaaaaaaaaaaaaaaaaaaaaaaaaaaaaaaaaaaaaaaaaaaaaaaa b'')))"
proof -
  have a: "sanitizeSegment [0x1B] = [0x1B]"
    by (simp add: sanitizeSegment_def trim_def isWhiteSpace_def unsafeChars_def)
  have b: "sanitizeSegment (js ''aaaaaaaaaaaaaaaaaaaaaaaaaaaaaaaaaaaaaaaaaaaaaaaaaaaaaaaaaaaaaaaaaaaaaaaaaaaaaaa b'') = js ''aaaaaaaaaaaaaaaaaaaaaaaaaaaaaaaaaaaaaaaaaaaaaaaaaaaaaaaaaaaaaaaaaaaaaaaaaaaaaaa ''"
    by (simp add: sanitizeSegment_def js_def trim_def isWhiteSpace_def unsafeChars_def)
  show ?thesis unfolding a b by (simp add: js_def isWhiteSpace_def)
qed

section \<open>The split of long paths\<close>

lemma lastIndexOf_None: "(lastIndexOf c s = None) = (c \<notin> set s)"
  by (induction s) (auto split: option.splits)

lemma lastIndexOf_Some: "lastIndexOf c s = Some i \<Longrightarrow> i < length s \<and> s ! i = c"
  by (induction s arbitrary: i) (auto split: option.splits if_splits)

lemma lastIndexOf_append:
  "c \<notin> set ys \<Longrightarrow> lastIndexOf c (xs @ c # ys) = Some (length xs)"
proof (induction xs)
  case Nil
  then have "lastIndexOf c ys = None" by (simp add: lastIndexOf_None)
  then show ?case by simp
next
  case (Cons x xs)
  then show ?case by simp
qed

lemma hd_dropWhile_eq: "dropWhile (\<lambda>c. c = x) xs \<noteq> [] \<Longrightarrow> hd (dropWhile (\<lambda>c. c = x) xs) \<noteq> x"
  using hd_dropWhile [of "\<lambda>c. c = x" xs] by simp

lemma hd_toPosixPath: "toPosixPath p \<noteq> [] \<Longrightarrow> hd (toPosixPath p) \<noteq> 0x2F"
  unfolding toPosixPath_def by (rule hd_dropWhile_eq)

lemma lastIndexOf_toPosixPath:
  "lastIndexOf 0x2F (toPosixPath p) = Some idx \<Longrightarrow> 0 < idx"
proof (rule ccontr)
  assume a: "lastIndexOf 0x2F (toPosixPath p) = Some idx" and "\<not> 0 < idx"
  then have z: "idx = 0" by simp
  from lastIndexOf_Some [OF a] z have "0 < length (toPosixPath p)" and "toPosixPath p ! 0 = 0x2F"
    by simp_all
  then have ne: "toPosixPath p \<noteq> []" and "toPosixPath p ! 0 = 0x2F" by simp_all
  then have "hd (toPosixPath p) = 0x2F" by (simp add: hd_conv_nth)
  with hd_toPosixPath [OF ne] show False by simp
qed

lemma nth_writeString:
  "i < length h \<Longrightarrow>
   writeString h off len v ! i =
     (if off \<le> i \<and> i < off + min len (length v) then ucast (v ! (i - off)) else h ! i)"
  by (auto simp: writeString_eq nth_bufWrite min_def)

lemma nth_createHeader_fields:
  "i < 512 \<Longrightarrow> i < 148 \<or> 156 \<le> i \<Longrightarrow>
   createHeader sha256hex p sz md mt flag ! i = headerFields sha256hex p sz md mt flag ! i"
proof -
  assume i: "i < 512" and o: "i < 148 \<or> 156 \<le> i"
  have len: "length (headerFields sha256hex p sz md mt flag) = 512"
    using spaced_headerFields [of sha256hex p sz md mt flag] by (simp add: spaced_def)
  show ?thesis
    using i o len
    by (auto simp: createHeader_def Let_def nth_list_update nth_writeString_outside)
qed

lemma headerFields_name:
  "i < 100 \<Longrightarrow>
   headerFields sha256hex p sz md mt flag ! i =
     (if i < length (name (splitTarPath sha256hex p))
      then ucast (name (splitTarPath sha256hex p) ! i) else 0)"
  unfolding headerFields_def Let_def
  by (simp add: nth_writeString_outside nth_writeOctal_outside nth_list_update bufFill_def
      nth_bufWrite nth_writeString)

lemma headerFields_prefix:
  "345 \<le> i \<Longrightarrow> i < 500 \<Longrightarrow>
   headerFields sha256hex p sz md mt flag ! i =
     (if i - 345 < length (prefix (splitTarPath sha256hex p))
      then ucast (prefix (splitTarPath sha256hex p) ! (i - 345)) else 0)"
  unfolding headerFields_def Let_def
  by (auto simp: nth_writeString_outside nth_writeOctal_outside nth_list_update bufFill_def
      nth_bufWrite nth_writeString min_def)


lemma length_createHeader: "length (createHeader sha256hex p sz md mt flag) = 512"
  using createHeader_checksumField [of sha256hex p sz md mt flag] by (simp add: checksumField_def)

lemma field_eq:
  fixes h :: "byte list" and v :: jsstring
  assumes "length h = 512" and "off + len \<le> 512" and "length v \<le> len"
    and "\<And>i. off \<le> i \<Longrightarrow> i < off + len \<Longrightarrow>
           h ! i = (if i - off < length v then ucast (v ! (i - off)) else 0)"
  shows "take len (drop off h) = map ucast v @ replicate (len - length v) 0"
proof (rule nth_equalityI)
  show "length (take len (drop off h)) = length (map ucast v @ replicate (len - length v) (0::byte))"
    using assms(1-3) by simp
next
  fix i assume "i < length (take len (drop off h))"
  then have i: "i < len" by simp
  then have "take len (drop off h) ! i = h ! (off + i)" using assms(1,2) by simp
  also have "\<dots> = (if i < length v then ucast (v ! i) else 0)"
    using assms(4) [of "off + i"] i by simp
  also have "\<dots> = (map ucast v @ replicate (len - length v) 0) ! i"
    using i assms(3) by (simp add: nth_append)
  finally show "take len (drop off h) ! i = (map ucast v @ replicate (len - length v) 0) ! i" .
qed

lemma createHeader_name_field:
  "length (name (splitTarPath sha256hex p)) \<le> 100 \<Longrightarrow>
   take 100 (createHeader sha256hex p sz md mt flag) =
     map ucast (name (splitTarPath sha256hex p))
       @ replicate (100 - length (name (splitTarPath sha256hex p))) 0"
proof -
  assume l: "length (name (splitTarPath sha256hex p)) \<le> 100"
  have "take 100 (drop 0 (createHeader sha256hex p sz md mt flag)) =
     map ucast (name (splitTarPath sha256hex p))
       @ replicate (100 - length (name (splitTarPath sha256hex p))) 0"
  proof (rule field_eq)
    show "length (createHeader sha256hex p sz md mt flag) = 512" by (rule length_createHeader)
    show "0 + 100 \<le> (512::nat)" by simp
    show "length (name (splitTarPath sha256hex p)) \<le> 100" by (rule l)
  next
    fix i :: nat assume "0 \<le> i" and i: "i < 0 + 100"
    then show "createHeader sha256hex p sz md mt flag ! i =
        (if i - 0 < length (name (splitTarPath sha256hex p))
         then ucast (name (splitTarPath sha256hex p) ! (i - 0)) else 0)"
      by (simp add: nth_createHeader_fields headerFields_name)
  qed
  then show ?thesis by simp
qed

lemma createHeader_prefix_field:
  "length (prefix (splitTarPath sha256hex p)) \<le> 155 \<Longrightarrow>
   take 155 (drop 345 (createHeader sha256hex p sz md mt flag)) =
     map ucast (prefix (splitTarPath sha256hex p))
       @ replicate (155 - length (prefix (splitTarPath sha256hex p))) 0"
proof (rule field_eq)
  show "length (createHeader sha256hex p sz md mt flag) = 512" by (rule length_createHeader)
  show "345 + 155 \<le> (512::nat)" by simp
next
  fix i :: nat assume "345 \<le> i" and i: "i < 345 + 155"
  then show "createHeader sha256hex p sz md mt flag ! i =
      (if i - 345 < length (prefix (splitTarPath sha256hex p))
       then ucast (prefix (splitTarPath sha256hex p) ! (i - 345)) else 0)"
    by (simp add: nth_createHeader_fields headerFields_prefix)
qed

text \<open>
  Claim C3, as the code has it. A path whose normalized form has at most 100 bytes is the
  name, with an empty prefix. A longer path is cut at its last slash: when what follows
  the last slash has at most 100 bytes and what precedes it at most 155, these are the
  name and the prefix, and not the \<open>path_{hash}\<close> name. In both cases the name field
  (offset 0, 100 bytes) and the prefix field (offset 345, 155 bytes) of the header hold
  them, NUL-padded.
\<close>

theorem splitTarPath_name_prefix:
  "(byteLength (toPosixPath p) \<le> 100 \<longrightarrow>
      splitTarPath sha256hex p = \<lparr>name = toPosixPath p, prefix = []\<rparr>
      \<and> take 100 (createHeader sha256hex p sz md mt flag) =
          map ucast (toPosixPath p) @ replicate (100 - length (toPosixPath p)) 0
      \<and> take 155 (drop 345 (createHeader sha256hex p sz md mt flag)) = replicate 155 0)
   \<and> (100 < byteLength (toPosixPath p)
        \<and> lastIndexOf 0x2F (toPosixPath p) = Some idx
        \<and> byteLength (drop (idx + 1) (toPosixPath p)) \<le> 100
        \<and> byteLength (take idx (toPosixPath p)) \<le> 155 \<longrightarrow>
      splitTarPath sha256hex p =
        \<lparr>name = drop (idx + 1) (toPosixPath p), prefix = take idx (toPosixPath p)\<rparr>
      \<and> take 100 (createHeader sha256hex p sz md mt flag) =
          map ucast (drop (idx + 1) (toPosixPath p))
            @ replicate (100 - length (drop (idx + 1) (toPosixPath p))) 0
      \<and> take 155 (drop 345 (createHeader sha256hex p sz md mt flag)) =
          map ucast (take idx (toPosixPath p))
            @ replicate (155 - length (take idx (toPosixPath p))) 0)"
proof (intro conjI impI)
  assume a: "byteLength (toPosixPath p) \<le> 100"
  then show s: "splitTarPath sha256hex p = \<lparr>name = toPosixPath p, prefix = []\<rparr>"
    by (simp add: splitTarPath_def Let_def)
  have "length (toPosixPath p) \<le> 100"
    using a length_le_byteLength [of "toPosixPath p"] by simp
  then show "take 100 (createHeader sha256hex p sz md mt flag) =
          map ucast (toPosixPath p) @ replicate (100 - length (toPosixPath p)) 0"
    using createHeader_name_field [of sha256hex p sz md mt flag] by (simp add: s)
  show "take 155 (drop 345 (createHeader sha256hex p sz md mt flag)) = replicate 155 0"
    using createHeader_prefix_field [of sha256hex p sz md mt flag] by (simp add: s)
next
  assume a: "100 < byteLength (toPosixPath p)
        \<and> lastIndexOf 0x2F (toPosixPath p) = Some idx
        \<and> byteLength (drop (idx + 1) (toPosixPath p)) \<le> 100
        \<and> byteLength (take idx (toPosixPath p)) \<le> 155"
  then have "lastIndexOf 0x2F (toPosixPath p) = Some idx" by simp
  then have "0 < idx" by (rule lastIndexOf_toPosixPath)
  with a show s: "splitTarPath sha256hex p =
        \<lparr>name = drop (idx + 1) (toPosixPath p), prefix = take idx (toPosixPath p)\<rparr>"
    by (simp add: splitTarPath_def Let_def)
  have "length (drop (idx + 1) (toPosixPath p)) \<le> 100"
    using a length_le_byteLength [of "drop (idx + 1) (toPosixPath p)"] by simp
  then show "take 100 (createHeader sha256hex p sz md mt flag) =
          map ucast (drop (idx + 1) (toPosixPath p))
            @ replicate (100 - length (drop (idx + 1) (toPosixPath p))) 0"
    using createHeader_name_field [of sha256hex p sz md mt flag] by (simp add: s)
  have "length (take idx (toPosixPath p)) \<le> 155"
    using a length_le_byteLength [of "take idx (toPosixPath p)"] by simp
  then show "take 155 (drop 345 (createHeader sha256hex p sz md mt flag)) =
          map ucast (take idx (toPosixPath p))
            @ replicate (155 - length (take idx (toPosixPath p))) 0"
    using createHeader_prefix_field [of sha256hex p sz md mt flag] by (simp add: s)
qed

lemma ascii_not_surrogate: "c < 0x80 \<Longrightarrow> \<not> isHighSurrogate c"
proof -
  assume "c < 0x80"
  moreover have "(0x80::jschar) \<le> 0xD800" by simp
  ultimately have "c < 0xD800" by (rule less_le_trans)
  then show ?thesis by (simp add: isHighSurrogate_def not_le)
qed

lemma byteLength_ascii: "list_all (\<lambda>c. c < 0x80) s \<Longrightarrow> byteLength s = length s"
proof (induction s rule: byteLength.induct)
  case 1
  show ?case by simp
next
  case (2 c)
  then show ?case by (simp add: unitBytes_def)
next
  case (3 c d cs)
  then have "\<not> isHighSurrogate c" using ascii_not_surrogate by simp
  with 3 show ?case by (simp add: unitBytes_def)
qed

lemma list_all_replicate: "P x \<Longrightarrow> list_all P (replicate n x)"
  by (induction n) auto

lemma toPosixPath_plain:
  "0x5C \<notin> set s \<Longrightarrow> s \<noteq> [] \<Longrightarrow> hd s \<noteq> 0x2F \<Longrightarrow> toPosixPath s = s"
proof -
  assume a: "0x5C \<notin> set s" and b: "s \<noteq> []" and c: "hd s \<noteq> 0x2F"
  have m: "map (\<lambda>c. if c = 0x5C then 0x2F else c) s = s"
  proof (rule map_idI)
    fix x assume "x \<in> set s"
    then have "x \<noteq> 0x5C" using a by (cases "x = 0x5C") simp_all
    then show "(if x = 0x5C then 0x2F else x) = x" by simp
  qed
  from b c have "dropWhile (\<lambda>c. c = 0x2F) s = s" by (cases s) simp_all
  with m show ?thesis by (simp add: toPosixPath_def)
qed

lemma hd_replicate_append: "0 < n \<Longrightarrow> hd (replicate n x @ ys) = x \<and> replicate n x @ ys \<noteq> []"
  by (cases n) auto

lemma ascii_slashPath: "list_all (\<lambda>c. c < 0x80) slashPath"
  by (simp add: slashPath_def js_def list_all_replicate)

lemma toPosixPath_slashPath: "toPosixPath slashPath = slashPath"
proof -
  have "hd slashPath = 0x61 \<and> slashPath \<noteq> []"
    unfolding slashPath_def by (rule hd_replicate_append) simp
  moreover have "0x5C \<notin> set slashPath" by (simp add: slashPath_def js_def)
  ultimately show ?thesis by (simp add: toPosixPath_plain)
qed

lemma lastIndexOf_slashPath: "lastIndexOf 0x2F slashPath = Some 161"
proof -
  have "lastIndexOf 0x2F ((replicate 100 0x61 @ js ''/'' @ replicate 60 0x62) @ 0x2F # replicate 30 0x63)
          = Some (length (replicate 100 (0x61::jschar) @ js ''/'' @ replicate 60 0x62))"
    by (rule lastIndexOf_append) simp
  then show ?thesis by (simp add: slashPath_def js_def)
qed

lemma byteLength_take_ascii:
  "list_all (\<lambda>c. c < 0x80) xs \<Longrightarrow> byteLength (take n xs) = min (length xs) n"
proof -
  assume a: "list_all (\<lambda>c. c < 0x80) xs"
  have "list_all (\<lambda>c. c < 0x80) (take n xs)"
    using a unfolding list_all_iff by (meson in_set_takeD)
  then show ?thesis by (simp add: byteLength_ascii)
qed

lemma byteLength_drop_ascii:
  "list_all (\<lambda>c. c < 0x80) xs \<Longrightarrow> byteLength (drop n xs) = length xs - n"
proof -
  assume a: "list_all (\<lambda>c. c < 0x80) xs"
  have "list_all (\<lambda>c. c < 0x80) (drop n xs)"
    using a unfolding list_all_iff by (meson in_set_dropD)
  then show ?thesis by (simp add: byteLength_ascii)
qed

lemma length_slashPath: "length slashPath = 192"
  by (simp add: slashPath_def js_def)

lemma nth_slashPath: "slashPath ! 100 = 0x2F"
proof -
  have "(replicate 100 (0x61::jschar) @ 0x2F # (replicate 60 0x62 @ js ''/'' @ replicate 30 0x63))
          ! length (replicate 100 (0x61::jschar)) = 0x2F"
    by (rule nth_append_length)
  then show ?thesis by (simp add: slashPath_def js_def)
qed

lemma splitTarPath_fallback:
  "100 < byteLength (toPosixPath p) \<Longrightarrow> lastIndexOf 0x2F (toPosixPath p) = Some idx \<Longrightarrow>
   155 < byteLength (take idx (toPosixPath p)) \<Longrightarrow>
   splitTarPath sha256hex p = \<lparr>name = js ''path_'' @ take 16 (sha256hex (toPosixPath p)), prefix = []\<rparr>"
  by (simp add: splitTarPath_def Let_def)

text \<open>
  Claim C3 as stated fails for a split at a slash other than the last one. \<open>slashPath\<close>
  has 192 bytes and splits at its first slash into 100 and 91 bytes, yet the code looks
  at the last slash only (a prefix of 161 bytes) and falls back to \<open>path_{hash}\<close>.
\<close>

theorem splitTarPath_any_slash_counterexample:
  "byteLength (toPosixPath slashPath) = 192
   \<and> toPosixPath slashPath ! 100 = 0x2F
   \<and> byteLength (take 100 (toPosixPath slashPath)) = 100
   \<and> byteLength (drop 101 (toPosixPath slashPath)) = 91
   \<and> splitTarPath zeroDigest slashPath = \<lparr>name = js ''path_'' @ replicate 16 0x30, prefix = []\<rparr>"
proof -
  have b: "byteLength slashPath = 192"
    using byteLength_ascii [OF ascii_slashPath] length_slashPath by simp
  have t: "byteLength (take 100 slashPath) = 100"
    using byteLength_take_ascii [OF ascii_slashPath, of 100] length_slashPath by simp
  have d: "byteLength (drop 101 slashPath) = 91"
    using byteLength_drop_ascii [OF ascii_slashPath, of 101] length_slashPath by simp
  have t2: "byteLength (take 161 slashPath) = 161"
    using byteLength_take_ascii [OF ascii_slashPath, of 161] length_slashPath by simp
  have z: "take 16 (zeroDigest slashPath) = replicate 16 0x30" by (simp add: zeroDigest_def)
  have c1: "100 < byteLength (toPosixPath slashPath)"
    unfolding toPosixPath_slashPath b by simp
  have c2: "lastIndexOf 0x2F (toPosixPath slashPath) = Some 161"
    unfolding toPosixPath_slashPath by (rule lastIndexOf_slashPath)
  have c3: "155 < byteLength (take 161 (toPosixPath slashPath))"
    unfolding toPosixPath_slashPath t2 by simp
  have "splitTarPath zeroDigest slashPath
          = \<lparr>name = js ''path_'' @ take 16 (zeroDigest (toPosixPath slashPath)), prefix = []\<rparr>"
    by (rule splitTarPath_fallback [OF c1 c2 c3])
  then have s: "splitTarPath zeroDigest slashPath = \<lparr>name = js ''path_'' @ replicate 16 0x30, prefix = []\<rparr>"
    unfolding toPosixPath_slashPath z .
  show ?thesis unfolding toPosixPath_slashPath by (intro conjI b t d nth_slashPath s)
qed

text \<open>The theorem at \<open>"a/b"\<close> and at a path of 60 letters, a slash and 50 letters.\<close>

theorem splitTarPath_name_prefix_witness:
  "splitTarPath zeroDigest (js ''a/b'') = \<lparr>name = js ''a/b'', prefix = []\<rparr>
   \<and> 100 < byteLength (toPosixPath (replicate 60 0x61 @ js ''/'' @ replicate 50 0x62))
   \<and> splitTarPath zeroDigest (replicate 60 0x61 @ js ''/'' @ replicate 50 0x62)
       = \<lparr>name = replicate 50 0x62, prefix = replicate 60 0x61\<rparr>"
proof -
  define q :: jsstring where "q = replicate 60 0x61 @ js ''/'' @ replicate 50 0x62"
  have short: "byteLength (toPosixPath (js ''a/b'')) \<le> 100"
    by (simp add: toPosixPath_def js_def unitBytes_def isHighSurrogate_def)
  have sp: "toPosixPath (js ''a/b'') = js ''a/b''" by (simp add: toPosixPath_def js_def)
  have asc: "list_all (\<lambda>c. c < 0x80) q" by (simp add: q_def js_def list_all_replicate)
  have "hd q = 0x61 \<and> q \<noteq> []"
    unfolding q_def by (rule hd_replicate_append) simp
  then have "hd q \<noteq> 0x2F" and "q \<noteq> []" by simp_all
  moreover have "0x5C \<notin> set q" by (simp add: q_def js_def)
  ultimately have tq: "toPosixPath q = q" by (simp add: toPosixPath_plain)
  have len: "byteLength q = 111" using byteLength_ascii [OF asc] by (simp add: q_def js_def)
  have "lastIndexOf 0x2F (replicate 60 0x61 @ 0x2F # replicate 50 0x62)
          = Some (length (replicate 60 (0x61::jschar)))"
    by (rule lastIndexOf_append) simp
  then have li: "lastIndexOf 0x2F q = Some 60" by (simp add: q_def js_def)
  have dq: "drop (60 + 1) q = replicate 50 0x62" and tk: "take 60 q = replicate 60 0x61"
    by (simp_all add: q_def js_def)
  have bd: "byteLength (drop (60 + 1) q) \<le> 100"
    unfolding dq using byteLength_ascii [of "replicate 50 0x62"] by (simp add: list_all_replicate)
  have bt: "byteLength (take 60 q) \<le> 155"
    unfolding tk using byteLength_ascii [of "replicate 60 0x61"] by (simp add: list_all_replicate)
  have one: "splitTarPath zeroDigest (js ''a/b'') = \<lparr>name = js ''a/b'', prefix = []\<rparr>"
    using splitTarPath_name_prefix [where p = "js ''a/b''" and ?sha256hex = zeroDigest] short sp
    by simp
  have two: "splitTarPath zeroDigest q = \<lparr>name = replicate 50 0x62, prefix = replicate 60 0x61\<rparr>"
    using splitTarPath_name_prefix [where p = q and ?sha256hex = zeroDigest and idx = 60]
      len li bd bt
    unfolding tq dq tk by simp
  have three: "100 < byteLength (toPosixPath q)" unfolding tq len by simp
  show ?thesis using one two three unfolding q_def by (intro conjI)
qed

section \<open>The deduper\<close>

declare dedupeLoop.simps [simp del]

lemma dedupeLoop_Some:
  "dedupeLoop base ext used i = Some c \<Longrightarrow>
   \<exists>j. i \<le> j \<and> j < 1000 \<and> c = candidatePath base j ext \<and> c \<notin> used"
proof (induction base ext used i rule: dedupeLoop.induct)
  case (1 base ext used i)
  show ?case
  proof (cases "i < 1000")
    case False
    with "1.prems" show ?thesis by (simp add: dedupeLoop.simps [of base ext used i])
  next
    case True
    show ?thesis
    proof (cases "candidatePath base i ext \<notin> used")
      case free: True
      with True "1.prems" have "c = candidatePath base i ext"
        by (simp add: dedupeLoop.simps [of base ext used i])
      with free True
      have "i \<le> i \<and> i < 1000 \<and> c = candidatePath base i ext \<and> c \<notin> used" by simp
      then show ?thesis by (rule exI [of _ i])
    next
      case taken: False
      with True "1.prems" have "dedupeLoop base ext used (Suc i) = Some c"
        by (simp add: dedupeLoop.simps [of base ext used i])
      with "1.IH" True taken obtain j
        where "Suc i \<le> j \<and> j < 1000 \<and> c = candidatePath base j ext \<and> c \<notin> used"
        by fastforce
      then have "i \<le> j \<and> j < 1000 \<and> c = candidatePath base j ext \<and> c \<notin> used" by auto
      then show ?thesis by (rule exI [of _ j])
    qed
  qed
qed

text \<open>
  A call returns a path that was not in the registry, unless the loop over the numeric
  suffixes fell through: the fallback path is added and returned without a look at the
  registry.
\<close>

lemma dedupePath_fresh_or_fallback:
  "dedupePath sha256hex p used = (r, used') \<Longrightarrow>
   used' = insert r used
   \<and> (r \<notin> used \<or> dedupeLoop
         (case lastIndexOf 0x2E p of Some i \<Rightarrow> take i p | None \<Rightarrow> p)
         (case lastIndexOf 0x2E p of Some i \<Rightarrow> drop i p | None \<Rightarrow> []) used 2 = None)"
proof -
  assume d: "dedupePath sha256hex p used = (r, used')"
  define base where "base = (case lastIndexOf 0x2E p of Some i \<Rightarrow> take i p | None \<Rightarrow> p)"
  define ext where "ext = (case lastIndexOf 0x2E p of Some i \<Rightarrow> drop i p | None \<Rightarrow> [])"
  have "used' = insert r used \<and> (r \<notin> used \<or> dedupeLoop base ext used 2 = None)"
  proof (cases "p \<in> used")
    case False
    with d show ?thesis by (auto simp: dedupePath_def)
  next
    case True
    show ?thesis
    proof (cases "dedupeLoop base ext used 2")
      case None
      with True d show ?thesis
        by (auto simp: dedupePath_def Let_def base_def ext_def)
    next
      case (Some c)
      from dedupeLoop_Some [OF Some] have "c \<notin> used" by blast
      with True Some d show ?thesis
        by (auto simp: dedupePath_def Let_def base_def ext_def)
    qed
  qed
  then show ?thesis by (simp add: base_def ext_def)
qed

lemma dedupePath_outcome: "fst (dedupePath sha256hex p used) \<in> pathOutcomes sha256hex p"
proof (cases "p \<in> used")
  case False
  then show ?thesis by (simp add: dedupePath_def pathOutcomes_def Let_def)
next
  case True
  define base where "base = (case lastIndexOf 0x2E p of Some i \<Rightarrow> take i p | None \<Rightarrow> p)"
  define ext where "ext = (case lastIndexOf 0x2E p of Some i \<Rightarrow> drop i p | None \<Rightarrow> [])"
  show ?thesis
  proof (cases "dedupeLoop base ext used 2")
    case None
    with True show ?thesis
      by (simp add: dedupePath_def pathOutcomes_def Let_def base_def ext_def)
  next
    case (Some c)
    from dedupeLoop_Some [OF Some] obtain j
      where j: "2 \<le> j" "j < 1000" "c = candidatePath base j ext" by blast
    then have "c \<in> (\<lambda>j. candidatePath base j ext) ` {2..<1000}" by auto
    with True Some show ?thesis
      by (simp add: dedupePath_def pathOutcomes_def Let_def base_def ext_def)
  qed
qed

lemma card_insert2: "finite A \<Longrightarrow> card (insert x (insert y A)) \<le> card A + 2"
  by (simp add: card_insert_if)

lemma card_pathOutcomes: "card (pathOutcomes sha256hex p) \<le> 1000"
proof -
  define base where "base = (case lastIndexOf 0x2E p of Some i \<Rightarrow> take i p | None \<Rightarrow> p)"
  define ext where "ext = (case lastIndexOf 0x2E p of Some i \<Rightarrow> drop i p | None \<Rightarrow> [])"
  define A where "A = (\<lambda>j. candidatePath base j ext) ` {2..<1000::nat}"
  have f: "finite A" by (simp add: A_def)
  have "card A \<le> card {2..<1000::nat}" unfolding A_def by (rule card_image_le) simp
  then have c: "card A \<le> 998" by simp
  have "pathOutcomes sha256hex p = insert p (insert (base @ js ''_'' @ shortHash sha256hex p @ ext) A)"
    by (simp add: pathOutcomes_def Let_def base_def ext_def A_def)
  then have "card (pathOutcomes sha256hex p) \<le> card A + 2"
    using card_insert2 [OF f] by simp
  with c show ?thesis by simp
qed

lemma finite_pathOutcomes: "finite (pathOutcomes sha256hex p)"
  by (simp add: pathOutcomes_def Let_def)

lemma length_dedupeAll: "length (dedupeAll sha256hex ps used) = length ps"
  by (induction ps arbitrary: used) (auto split: prod.splits)

lemma set_dedupeAll_replicate:
  "set (dedupeAll sha256hex (replicate n p) used) \<subseteq> pathOutcomes sha256hex p"
proof (induction n arbitrary: used)
  case 0
  show ?case by simp
next
  case (Suc n)
  obtain r used' where d: "dedupePath sha256hex p used = (r, used')" by (cases "dedupePath sha256hex p used")
  then have "r \<in> pathOutcomes sha256hex p" using dedupePath_outcome [of sha256hex p used] by simp
  with Suc [of used'] d show ?case by simp
qed

text \<open>
  Claim C2 does not hold of the code. Whatever the digest, 1001 calls with the same path
  on one registry that starts empty do not return pairwise distinct paths: a call can
  return only the path itself, one of the 998 numbered candidates or the one fallback
  path, which is 1000 paths at most.
\<close>

theorem dedupePath_repeats:
  "\<not> distinct (dedupeAll sha256hex (replicate 1001 p) {})"
proof
  assume "distinct (dedupeAll sha256hex (replicate 1001 p) {})"
  then have "card (set (dedupeAll sha256hex (replicate 1001 p) {})) = 1001"
    by (simp add: distinct_card length_dedupeAll)
  moreover have "card (set (dedupeAll sha256hex (replicate 1001 p) {})) \<le> card (pathOutcomes sha256hex p)"
    by (intro card_mono set_dedupeAll_replicate finite_pathOutcomes)
  ultimately show False using card_pathOutcomes [of sha256hex p] by simp
qed

section \<open>Request validation and options\<close>

lemma requestOptions_fields:
  "downloadImages (requestOptions b) = (bodyDownloadImages b \<noteq> JBool False)"
  "downloadFiles (requestOptions b) = (bodyDownloadFiles b \<noteq> JBool False)"
  by (simp_all add: requestOptions_def)

lemma find_invalid:
  "u \<in> set urls \<Longrightarrow> \<not> validUrl pf u \<Longrightarrow> \<exists>v. find (\<lambda>u. \<not> validUrl pf u) urls = Some v"
  by (cases "find (\<lambda>u. \<not> validUrl pf u) urls") (auto simp: find_None_iff)

text \<open>
  Claim C9, as the code has it. For a POST request whose URL list validation refuses, the
  handler answers 400 with a JSON error and no archive, and it has called neither the
  extractor nor \<open>fetch\<close>: its reply is the same in every world.
\<close>

theorem handler_rejects:
  "httpMethod req = js ''POST'' \<Longrightarrow>
   rejectedList pf (requestUrls (case body req of None \<Rightarrow> emptyBody | Some b \<Rightarrow> b)) \<Longrightarrow>
   status (handler pf w req) = 400
   \<and> calls (handler pf w req) = []
   \<and> (\<exists>message. sent (handler pf w req) = JsonError message)
   \<and> handler pf w req = handler pf w' req"
proof -
  assume post: "httpMethod req = js ''POST''"
  define urls where "urls = requestUrls (case body req of None \<Rightarrow> emptyBody | Some b \<Rightarrow> b)"
  assume "rejectedList pf (requestUrls (case body req of None \<Rightarrow> emptyBody | Some b \<Rightarrow> b))"
  then have r: "rejectedList pf urls" by (simp add: urls_def)
  have np: "js ''POST'' \<noteq> js ''OPTIONS''" by (simp add: js_def)
  consider (empty) "urls = []" | (many) "urls \<noteq> []" "20 < length urls"
    | (bad) "urls \<noteq> []" "\<not> 20 < length urls"
        "list_ex (\<lambda>u. case newURL pf u of
                        None \<Rightarrow> True
                      | Some p \<Rightarrow> protocol p \<noteq> js ''http:'' \<and> protocol p \<noteq> js ''https:'') urls"
    using r unfolding rejectedList_def by blast
  then show ?thesis
  proof cases
    case empty
    then show ?thesis
      using post np by (simp add: handler_def Let_def urls_def [symmetric])
  next
    case many
    then show ?thesis
      using post np by (simp add: handler_def Let_def urls_def [symmetric] MAX_URLS_def)
  next
    case bad
    then obtain u where "u \<in> set urls" and "\<not> validUrl pf u"
      unfolding list_ex_iff validUrl_def by (auto split: option.splits)
    then obtain v where "find (\<lambda>u. \<not> validUrl pf u) urls = Some v"
      using find_invalid by blast
    with bad show ?thesis
      using post np by (simp add: handler_def Let_def urls_def [symmetric] MAX_URLS_def)
  qed
qed


text \<open>The theorem at a POST request without a body and at one with an \<open>ftp:\<close> URL.\<close>

theorem handler_rejects_witness:
  "rejectedList stubPlatform (requestUrls emptyBody)
   \<and> status (handler stubPlatform stubWorld \<lparr>httpMethod = js ''POST'', body = None\<rparr>) = 400
   \<and> rejectedList stubPlatform [js ''http://h/x'', js ''ftp://h/y'']
   \<and> status (handler stubPlatform stubWorld
         \<lparr>httpMethod = js ''POST'',
          body = Some \<lparr>bodyUrls = Some [js ''http://h/x'', js ''ftp://h/y''], bodyUrl = None,
                        bodyDownloadImages = JUndefined, bodyDownloadFiles = JUndefined\<rparr>\<rparr>) = 400
   \<and> calls (handler stubPlatform stubWorld
         \<lparr>httpMethod = js ''POST'',
          body = Some \<lparr>bodyUrls = Some [js ''http://h/x'', js ''ftp://h/y''], bodyUrl = None,
                        bodyDownloadImages = JUndefined, bodyDownloadFiles = JUndefined\<rparr>\<rparr>) = []"
proof -
  have a: "rejectedList stubPlatform (requestUrls emptyBody)"
    by (simp add: rejectedList_def requestUrls_def emptyBody_def)
  have "stubURL (js ''ftp://h/y'') =
          Some \<lparr>protocol = js ''ftp:'', hostname = js ''h'', pathname = js ''/y''\<rparr>"
    by (simp add: stubURL_def js_def Let_def)
  then have b: "rejectedList stubPlatform [js ''http://h/x'', js ''ftp://h/y'']"
    by (simp add: rejectedList_def stubPlatform_def js_def)
  show ?thesis
    using a b
      handler_rejects [of "\<lparr>httpMethod = js ''POST'', body = None\<rparr>" stubPlatform stubWorld stubWorld]
      handler_rejects [of "\<lparr>httpMethod = js ''POST'',
          body = Some \<lparr>bodyUrls = Some [js ''http://h/x'', js ''ftp://h/y''], bodyUrl = None,
                        bodyDownloadImages = JUndefined, bodyDownloadFiles = JUndefined\<rparr>\<rparr>"
        stubPlatform stubWorld stubWorld]
    by (simp add: requestUrls_def)
qed

text \<open>
  Claim C9 as stated fails for a request that is not a POST: the method is checked first,
  and a request with an empty URL list is answered 405 (or 200 for OPTIONS), not 400.
\<close>

theorem handler_method_counterexample:
  "rejectedList stubPlatform (requestUrls emptyBody)
   \<and> status (handler stubPlatform stubWorld \<lparr>httpMethod = js ''GET'', body = None\<rparr>) = 405
   \<and> status (handler stubPlatform stubWorld \<lparr>httpMethod = js ''OPTIONS'', body = None\<rparr>) = 200"
  by (simp add: rejectedList_def requestUrls_def emptyBody_def handler_def js_def)

section \<open>Rewriting the markdown\<close>

lemma splitOn_not_Nil: "splitOn sep t \<noteq> []"
  by (induction sep t rule: splitOn.induct) (auto split: list.splits)

lemma joinWith_Cons: "ps \<noteq> [] \<Longrightarrow> joinWith sep (p # ps) = p @ sep @ joinWith sep ps"
  by (cases ps) auto

lemma joinWith_push: "joinWith sep ((x # p) # ps) = x # joinWith sep (p # ps)"
  by (cases ps) auto

lemma joinWith_splitOn: "joinWith sep (splitOn sep t) = t"
proof (induction sep t rule: splitOn.induct)
  case (1 sep)
  show ?case by simp
next
  case (2 sep x xs)
  show ?case
  proof (cases "sep \<noteq> [] \<and> take (length sep) (x # xs) = sep")
    case True
    then have "joinWith sep (splitOn sep (x # xs))
        = sep @ joinWith sep (splitOn sep (drop (length sep) (x # xs)))"
      by (simp add: joinWith_Cons splitOn_not_Nil)
    also have "\<dots> = take (length sep) (x # xs) @ drop (length sep) (x # xs)"
      using True 2 by simp
    finally show ?thesis by simp
  next
    case False
    obtain p ps where s: "splitOn sep xs = p # ps"
      using splitOn_not_Nil [of sep xs] by (cases "splitOn sep xs") auto
    with False have "splitOn sep (x # xs) = (x # p) # ps" by auto
    then have "joinWith sep (splitOn sep (x # xs)) = x # joinWith sep (splitOn sep xs)"
      by (simp add: joinWith_push s)
    with 2 False show ?thesis by auto
  qed
qed

lemma first_piece_prefix: "splitOn sep t = p # ps \<Longrightarrow> \<exists>rest. t = p @ rest"
proof -
  assume s: "splitOn sep t = p # ps"
  have "t = joinWith sep (p # ps)" using joinWith_splitOn [of sep t] s by simp
  then show ?thesis by (cases ps) auto
qed

lemma pieces_free:
  "sep \<noteq> [] \<Longrightarrow> p \<in> set (splitOn sep t) \<Longrightarrow> \<not> occursIn sep p"
proof (induction sep t arbitrary: p rule: splitOn.induct)
  case (1 sep)
  then show ?case by simp
next
  case (2 sep x xs)
  show ?case
  proof (cases "take (length sep) (x # xs) = sep")
    case True
    with "2.prems" have "p = [] \<or> p \<in> set (splitOn sep (drop (length sep) (x # xs)))"
      by auto
    then show ?thesis
    proof
      assume "p = []"
      with "2.prems" show ?thesis by simp
    next
      assume "p \<in> set (splitOn sep (drop (length sep) (x # xs)))"
      with "2.IH"(1) "2.prems" True show ?thesis by simp
    qed
  next
    case False
    obtain q qs where s: "splitOn sep xs = q # qs"
      using splitOn_not_Nil [of sep xs] by (cases "splitOn sep xs") auto
    with False have e: "splitOn sep (x # xs) = (x # q) # qs" by auto
    have tail: "\<not> occursIn sep r" if "r \<in> set (q # qs)" for r
      using "2.IH"(2) [of r] "2.prems"(1) False that s by simp
    from first_piece_prefix [OF s] obtain rest where xs: "xs = q @ rest" by blast
    have head: "\<not> occursIn sep (x # q)"
    proof
      assume "occursIn sep (x # q)"
      then have "take (length sep) (x # q) = sep" using tail [of q] by simp
      then have "take (length sep) (x # q @ rest) = sep"
        by (metis append_Cons append_eq_conv_conj length_take take_append min.absorb2
            append_Nil2 take_all take_eq_Nil diff_is_0_eq' nat_le_linear take_take)
      with xs False show False by simp
    qed
    from "2.prems"(2) e have "p = x # q \<or> p \<in> set qs" by simp
    with head tail show ?thesis by auto
  qed
qed


lemma occursIn_append_left: "occursIn s t \<Longrightarrow> occursIn s (a @ t)"
proof (induction a)
  case Nil
  then show ?case by simp
next
  case (Cons x a)
  then show ?case by simp
qed

lemma take_append_full: "take n t = s \<Longrightarrow> length s = n \<Longrightarrow> take n (t @ b) = s"
  by (metis append_Nil2 diff_is_0_eq' length_take min.cobounded1 min_def take_append
      take_eq_Nil)

lemma occursIn_append_right: "occursIn s t \<Longrightarrow> occursIn s (t @ b)"
proof (induction t)
  case Nil
  then show ?case by (cases b) auto
next
  case (Cons x t)
  from Cons.prems have "take (length s) (x # t) = s \<or> occursIn s t" by simp
  then show ?case
  proof
    assume "take (length s) (x # t) = s"
    then have "take (length s) ((x # t) @ b) = s" by (rule take_append_full) simp
    then show ?thesis by simp
  next
    assume "occursIn s t"
    with Cons.IH show ?thesis by simp
  qed
qed

lemma piece_in_joinWith: "p \<in> set ps \<Longrightarrow> \<exists>a b. joinWith sep ps = a @ p @ b"
proof (induction sep ps rule: joinWith.induct)
  case (1 sep)
  then show ?case by simp
next
  case (2 sep q)
  then have "joinWith sep [q] = [] @ p @ []" by simp
  then show ?case by blast
next
  case (3 sep q r rs)
  from "3.prems" have "p = q \<or> p \<in> set (r # rs)" by auto
  then show ?case
  proof
    assume "p = q"
    then have "joinWith sep (q # r # rs) = [] @ p @ (sep @ joinWith sep (r # rs))" by simp
    then show ?thesis by blast
  next
    assume "p \<in> set (r # rs)"
    with "3.IH" obtain a b where "joinWith sep (r # rs) = a @ p @ b" by blast
    then have "joinWith sep (q # r # rs) = (q @ sep @ a) @ p @ b" by simp
    then show ?thesis by blast
  qed
qed

lemma survives:
  "p \<in> set (splitOn search t) \<Longrightarrow> occursIn f p \<Longrightarrow> occursIn f (replaceAll t search replacement)"
proof (cases "search = []")
  case True
  assume p: "p \<in> set (splitOn search t)" and f: "occursIn f p"
  from piece_in_joinWith [OF p] obtain a b where "joinWith search (splitOn search t) = a @ p @ b"
    by blast
  then have "t = a @ p @ b" by (simp add: joinWith_splitOn)
  with f True show ?thesis
    by (simp add: replaceAll_def occursIn_append_left occursIn_append_right)
next
  case False
  assume p: "p \<in> set (splitOn search t)" and f: "occursIn f p"
  from piece_in_joinWith [OF p] obtain a b
    where "joinWith replacement (splitOn search t) = a @ p @ b" by blast
  with f False show ?thesis
    by (simp add: replaceAll_def occursIn_append_left occursIn_append_right)
qed

lemma okAssets_Cons:
  "okAssets (None # ds) = okAssets ds" "okAssets (Some a # ds) = a # okAssets ds"
  by (simp_all add: okAssets_def)

section \<open>Folders of the archive and digits of the index\<close>

lemma unat_digitChar: "d < 10 \<Longrightarrow> unat (digitChar d) = 48 + d"
proof -
  assume d: "d < 10"
  have "unat (word_of_nat (48 + d) :: jschar) = (48 + d) mod 2 ^ LENGTH(16)"
    by (rule unat_of_nat)
  also have "\<dots> = 48 + d" using d by simp
  finally show ?thesis using d by (simp only: digitChar_def if_True)
qed

lemma digitValue_digitChar: "d < 10 \<Longrightarrow> digitValue (digitChar d) = d"
  by (simp add: digitValue_def unat_digitChar)

lemma readRadix_snoc: "readRadix r (s @ [c]) = readRadix r s * r + digitValue c"
  by (simp add: readRadix_def)

lemma readRadix_toStringRadix:
  "2 \<le> r \<Longrightarrow> r \<le> 10 \<Longrightarrow> readRadix r (toStringRadix r n) = n"
proof (induction r n rule: toStringRadix.induct)
  case (1 r n)
  show ?case
  proof (cases "n < r")
    case True
    with "1.prems" have "toStringRadix r n = [digitChar n]"
      by (subst toStringRadix.simps) simp
    with True "1.prems" show ?thesis by (simp add: readRadix_def digitValue_digitChar)
  next
    case False
    with "1.prems" have e: "toStringRadix r n = toStringRadix r (n div r) @ [digitChar (n mod r)]"
      by (subst toStringRadix.simps) simp
    have "n mod r < r" using "1.prems" by simp
    then have "n mod r < 10" using "1.prems" by linarith
    then have "digitValue (digitChar (n mod r)) = n mod r" by (rule digitValue_digitChar)
    moreover have "readRadix r (toStringRadix r (n div r)) = n div r"
      using "1.IH" "1.prems" False by simp
    ultimately show ?thesis by (simp add: e readRadix_snoc)
  qed
qed

lemma readRadix_zeros: "readRadix r (replicate k 0x30 @ s) = readRadix r s"
proof (induction k)
  case 0
  show ?case by simp
next
  case (Suc k)
  have z: "digitValue 0x30 = 0" by (simp add: digitValue_def)
  have "readRadix r (0x30 # t) = readRadix r t" for t
    by (simp add: readRadix_def z)
  with Suc show ?case by simp
qed

lemma readRadix_padStart:
  "2 \<le> r \<Longrightarrow> r \<le> 10 \<Longrightarrow> readRadix r (padStart k 0x30 (toStringRadix r n)) = n"
  by (simp add: padStart_def readRadix_zeros readRadix_toStringRadix)

lemma toStringRadix_not_Nil: "toStringRadix r n \<noteq> []"
  by (subst toStringRadix.simps) simp

lemma length_padStart3: "n < 1000 \<Longrightarrow> length (padStart 3 0x30 (toStringRadix 10 n)) = 3"
proof -
  assume "n < 1000"
  then have "length (toStringRadix 10 n) \<le> 3" by (intro length_toStringRadix) simp_all
  then show ?thesis by (simp add: padStart_def)
qed

lemma unat_decimal_digit:
  "c \<in> set (toStringRadix 10 n) \<Longrightarrow> 48 \<le> unat c \<and> unat c \<le> 57"
proof (induction "10::nat" n rule: toStringRadix.induct)
  case (1 n)
  show ?case
  proof (cases "n < 10")
    case True
    then have "toStringRadix 10 n = [digitChar n]" by (subst toStringRadix.simps) simp
    with "1.prems" True show ?thesis by (simp add: unat_digitChar)
  next
    case False
    then have e: "toStringRadix 10 n = toStringRadix 10 (n div 10) @ [digitChar (n mod 10)]"
      by (subst toStringRadix.simps) simp
    have "unat (digitChar (n mod 10)) = 48 + n mod 10" by (rule unat_digitChar) simp
    moreover have "n mod 10 < 10" by simp
    ultimately have "48 \<le> unat (digitChar (n mod 10)) \<and> unat (digitChar (n mod 10)) \<le> 57"
      by linarith
    with "1.prems" "1.hyps" False e show ?thesis by auto
  qed
qed

lemma unat_padded_digit:
  "c \<in> set (padStart k 0x30 (toStringRadix 10 n)) \<Longrightarrow> 48 \<le> unat c \<and> unat c \<le> 57"
proof -
  assume "c \<in> set (padStart k 0x30 (toStringRadix 10 n))"
  then have "c = 0x30 \<or> c \<in> set (toStringRadix 10 n)"
    by (auto simp: padStart_def split: if_splits)
  then show ?thesis
  proof
    assume "c = 0x30"
    then show ?thesis by simp
  next
    assume "c \<in> set (toStringRadix 10 n)"
    then show ?thesis by (rule unat_decimal_digit)
  qed
qed

lemma slash_not_digit: "0x2F \<notin> set (padStart k 0x30 (toStringRadix 10 n))"
proof
  assume "0x2F \<in> set (padStart k 0x30 (toStringRadix 10 n))"
  then have "48 \<le> unat (0x2F::jschar)" using unat_padded_digit by blast
  then show False by simp
qed

lemma slash_not_sanitized: "0x2F \<notin> set (sanitizeSegment s)"
proof -
  define m where "m = map (\<lambda>c. if c \<in> unsafeChars then 0x5F else c) (filter (\<lambda>c. c \<noteq> 0) s)"
  have m: "set m \<inter> insert 0 unsafeChars = {}"
    unfolding m_def by (rule set_sanitized_input)
  have sp: "(0x20::jschar) \<notin> insert 0 unsafeChars" by (simp add: unsafeChars_def)
  have "set (take (80::nat) (trim (collapseWhiteSpace m))) \<subseteq> insert 0x20 (set m)"
    by (rule set_take_trim_collapse)
  then have sub: "set (sanitizeSegment s) \<subseteq> insert 0x20 (set m)"
    by (simp add: sanitizeSegment_def m_def)
  have bad: "set (sanitizeSegment s) \<inter> insert 0 unsafeChars = {}"
    using sub m sp by (rule disjoint_insert_sub)
  have "set (sanitizeSegment s) \<inter> unsafeChars = {}"
    using disjoint_insert_parts [OF bad] by simp
  moreover have "0x2F \<in> unsafeChars" by (simp add: unsafeChars_def)
  ultimately show ?thesis by (meson disjoint_iff)
qed



lemma safeArticleFolder_folderOf:
  "safeArticleFolder pf u ttl i = Some f \<Longrightarrow> i < 999 \<Longrightarrow> folderOf i f"
proof -
  assume s: "safeArticleFolder pf u ttl i = Some f" and i: "i < 999"
  define pre where "pre = padStart 3 0x30 (toStringRadix 10 (i + 1))"
  have l: "length pre = 3" unfolding pre_def by (rule length_padStart3) (use i in simp)
  have np: "0x2F \<notin> set pre" unfolding pre_def by (rule slash_not_digit)
  have us: "0x2F \<notin> set (js ''_'')" and ar: "0x2F \<notin> set (js ''article_'')"
    by (simp_all add: js_def)
  from s obtain b where f: "f = pre @ js ''_'' @ b" and b: "0x2F \<notin> set b"
    unfolding safeArticleFolder_def Let_def pre_def [symmetric] orElse_def
    using slash_not_sanitized np ar
    by (auto split: if_splits option.splits)
  have "take 3 f = pre" using l f by simp
  moreover have "0x2F \<notin> set f" using f np us b by simp
  ultimately show ?thesis by (simp add: folderOf_def pre_def)
qed

lemma folderOf_inj: "folderOf i f \<Longrightarrow> folderOf j f \<Longrightarrow> i = j"
proof -
  assume "folderOf i f" and "folderOf j f"
  then have "padStart 3 0x30 (toStringRadix 10 (i + 1)) = padStart 3 0x30 (toStringRadix 10 (j + 1))"
    by (simp add: folderOf_def)
  then have "readRadix 10 (padStart 3 0x30 (toStringRadix 10 (i + 1)))
           = readRadix 10 (padStart 3 0x30 (toStringRadix 10 (j + 1)))" by simp
  then have "i + 1 = j + 1" by (simp add: readRadix_padStart)
  then show ?thesis by simp
qed

lemma not_slash: "0x2F \<notin> set f \<Longrightarrow> x \<in> set f \<Longrightarrow> x \<noteq> 0x2F"
  by (cases "x = 0x2F") simp_all

lemma topFolder_path: "0x2F \<notin> set f \<Longrightarrow> topFolder (f @ js ''/'' @ rest) = f"
proof -
  assume a: "0x2F \<notin> set f"
  have "takeWhile (\<lambda>c. c \<noteq> 0x2F) (f @ 0x2F # rest) = f @ takeWhile (\<lambda>c. c \<noteq> 0x2F) (0x2F # rest)"
    by (rule takeWhile_append2) (rule not_slash [OF a])
  then show ?thesis by (simp add: topFolder_def js_def)
qed

lemma slash_in_path: "0x2F \<in> set (f @ js ''/'' @ rest)"
  by (simp add: js_def)

lemma insideFolder_path: "0x2F \<notin> set f \<Longrightarrow> insideFolder (f @ js ''/'' @ rest) = rest"
proof -
  assume a: "0x2F \<notin> set f"
  have "dropWhile (\<lambda>c. c \<noteq> 0x2F) (f @ 0x2F # rest) = dropWhile (\<lambda>c. c \<noteq> 0x2F) (0x2F # rest)"
    by (rule dropWhile_append2) (rule not_slash [OF a])
  then show ?thesis by (simp add: insideFolder_def js_def)
qed

lemma startsWith_self: "startsWith (p @ t) p"
  by (simp add: startsWith_def)

lemma startsWith_append: "startsWith s p \<Longrightarrow> startsWith (s @ t) p"
  unfolding startsWith_def by (rule take_append_full) simp_all

lemma startsWith_take: "startsWith s p \<Longrightarrow> length p \<le> i \<Longrightarrow> startsWith (take i s) p"
  by (simp add: startsWith_def min_def)

lemma startsWith_index:
  "startsWith s p \<Longrightarrow> i < length s \<Longrightarrow> s ! i \<notin> set p \<Longrightarrow> length p \<le> i"
proof (rule ccontr)
  assume a: "startsWith s p" and i: "i < length s" and n: "s ! i \<notin> set p" and "\<not> length p \<le> i"
  then have l: "i < length p" by simp
  from a have "take (length p) s ! i = p ! i" by (simp add: startsWith_def)
  with l have "s ! i = p ! i" by simp
  with l n show False by (metis nth_mem)
qed

lemma dedupeLoop_prefix:
  "dedupeLoop base ext used i = Some c \<Longrightarrow> startsWith base pre \<Longrightarrow> startsWith c pre"
proof -
  assume "dedupeLoop base ext used i = Some c" and b: "startsWith base pre"
  then obtain j where "c = candidatePath base j ext" using dedupeLoop_Some by blast
  then show ?thesis using startsWith_append [OF b] by (simp add: candidatePath_def)
qed

lemma dedupePath_prefix:
  "startsWith p pre \<Longrightarrow> 0x2E \<notin> set pre \<Longrightarrow> startsWith (fst (dedupePath sha256hex p used)) pre"
proof -
  assume sp: "startsWith p pre" and dot: "0x2E \<notin> set pre"
  define base where "base = (case lastIndexOf 0x2E p of Some i \<Rightarrow> take i p | None \<Rightarrow> p)"
  define ext where "ext = (case lastIndexOf 0x2E p of Some i \<Rightarrow> drop i p | None \<Rightarrow> [])"
  have b: "startsWith base pre"
  proof (cases "lastIndexOf 0x2E p")
    case None
    with sp show ?thesis by (simp add: base_def)
  next
    case (Some i)
    from lastIndexOf_Some [OF Some] have "i < length p" and "p ! i = 0x2E" by simp_all
    with dot have "p ! i \<notin> set pre" by simp
    with sp \<open>i < length p\<close> have "length pre \<le> i" by (rule startsWith_index)
    with sp Some show ?thesis by (simp add: base_def startsWith_take)
  qed
  show ?thesis
  proof (cases "p \<in> used")
    case False
    with sp show ?thesis by (simp add: dedupePath_def)
  next
    case True
    show ?thesis
    proof (cases "dedupeLoop base ext used 2")
      case None
      with True startsWith_append [OF b] show ?thesis
        by (simp add: dedupePath_def Let_def base_def [symmetric] ext_def [symmetric])
    next
      case (Some c)
      from dedupeLoop_prefix [OF Some b] True Some show ?thesis
        by (simp add: dedupePath_def Let_def base_def [symmetric] ext_def [symmetric])
    qed
  qed
qed

lemma dot_not_assetPrefix: "0x2E \<notin> set (assetPrefix kind)"
  by (cases kind) (simp_all add: assetPrefix_def js_def)

lemma buildRelativeAssetPath_prefix:
  "buildRelativeAssetPath pf u kind fn = Some rel \<Longrightarrow> startsWith rel (assetPrefix kind)"
proof -
  assume "buildRelativeAssetPath pf u kind fn = Some rel"
  then obtain t where "rel = assetPrefix kind @ t"
    by (auto simp: buildRelativeAssetPath_def Let_def assetPrefix_def split: option.splits)
  then show ?thesis by (simp add: startsWith_self)
qed

lemma acceptBytes_Some:
  "acceptBytes b len = Some b' \<Longrightarrow>
   b' = b + len \<and> 0 < len \<and> len \<le> MAX_ASSET_BYTES \<and> b' \<le> MAX_TOTAL_ASSET_BYTES"
  by (auto simp: acceptBytes_def split: if_splits)

lemma relativePath_prefix:
  "buildRelativeAssetPath pf u kind fn = Some rel \<Longrightarrow> dedupePath sha256hex rel used = (r2, u2) \<Longrightarrow>
   startsWith r2 (assetPrefix kind)"
proof -
  assume rel: "buildRelativeAssetPath pf u kind fn = Some rel"
    and dd: "dedupePath sha256hex rel used = (r2, u2)"
  have "startsWith (fst (dedupePath sha256hex rel used)) (assetPrefix kind)"
    using buildRelativeAssetPath_prefix [OF rel] dot_not_assetPrefix
    by (rule dedupePath_prefix)
  then show ?thesis by (simp add: dd)
qed

lemma downloadAsset_result:
  "downloadAsset pf answer u kind used b = (res, used', b') \<Longrightarrow>
   b \<le> b'
   \<and> (b \<le> MAX_TOTAL_ASSET_BYTES \<longrightarrow> b' \<le> MAX_TOTAL_ASSET_BYTES)
   \<and> (res = Inr None \<longrightarrow> b' = b)
   \<and> (\<forall>a. res = Inr (Some a) \<longrightarrow>
         b' = b + length (assetContent a) \<and> originalUrl a = u
         \<and> startsWith (relativePath a) (assetPrefix kind))"
  unfolding downloadAsset_def Let_def
  by (auto split: fetchResult.splits if_splits sum.splits option.splits prod.splits
      dest: acceptBytes_Some relativePath_prefix)

section \<open>The pool of downloads\<close>

declare downloadRun.simps [simp del]


lemma poolProgress_refl: "poolProgress items referer st st"
  by (simp add: poolProgress_def)

lemma poolProgress_trans:
  "poolProgress items referer a b \<Longrightarrow> poolProgress items referer b c \<Longrightarrow>
   poolProgress items referer a c"
  unfolding poolProgress_def
  apply (intro conjI)
       apply linarith
      apply blast
     apply simp
    apply blast
   apply blast
  apply linarith
  done

lemma okAssets_update_le:
  "assetsBytes (okAssets (ds[k := a]))
     \<le> assetsBytes (okAssets ds) + (case a of None \<Rightarrow> 0 | Some x \<Rightarrow> length (assetContent x))"
proof (induction ds arbitrary: k)
  case Nil
  show ?case by (simp add: okAssets_def assetsBytes_def)
next
  case (Cons d ds)
  show ?case
  proof (cases k)
    case 0
    then show ?thesis
      by (cases a; cases d) (simp_all add: okAssets_Cons assetsBytes_def)
  next
    case (Suc j)
    with Cons [of j] show ?thesis
      by (cases d) (simp_all add: okAssets_Cons assetsBytes_def)
  qed
qed

lemma set_okAssets: "set (okAssets ds) = {a. Some a \<in> set ds}"
proof (induction ds)
  case Nil
  show ?case by (simp add: okAssets_def)
next
  case (Cons d ds)
  then show ?case by (cases d) (auto simp: okAssets_Cons)
qed


lemma startNext_fields:
  "downloaded (startNext referer items st) = downloaded st"
  "usedPaths (startNext referer items st) = usedPaths st"
  "totalBytes (startNext referer items st) = totalBytes st"
  "thrown (startNext referer items st) = thrown st"
  "cursor (startNext referer items st) = cursor st + 1"
  "inFlight (startNext referer items st)
     = (if cursor st < length items then inFlight st @ [cursor st] else inFlight st)"
  "fetched (startNext referer items st)
     = (if cursor st < length items
        then fetched st @ [FetchCall (fst (items ! cursor st)) (snd (items ! cursor st)) referer]
        else fetched st)"
  by (auto simp: startNext_def Let_def split: prod.splits)

lemma startNext_inRange: "inRange items st \<Longrightarrow> inRange items (startNext referer items st)"
  by (simp add: inRange_def startNext_fields)

lemma startNext_progress: "poolProgress items referer st (startNext referer items st)"
  unfolding poolProgress_def by (auto simp: startNext_fields)

lemma funpow_invariant:
  "P x \<Longrightarrow> (\<And>y. P y \<Longrightarrow> P (f y)) \<Longrightarrow> P ((f ^^ n) x)"
  by (induction n) simp_all

lemma completeNext_Inl:
  assumes "k = arg_min_list rank (inFlight st)" and "items ! k = (kind, u)"
    and "downloadAsset pf (fetchJob k u referer) u kind (usedPaths st) (totalBytes st)
           = (Inl m, used', b')"
  shows "completeNext pf fetchJob rank referer items st
           = st\<lparr>inFlight := remove1 k (inFlight st), usedPaths := used', totalBytes := b',
                thrown := Some m\<rparr>"
  using assms by (simp add: completeNext_def Let_def)

lemma completeNext_Inr:
  assumes "k = arg_min_list rank (inFlight st)" and "items ! k = (kind, u)"
    and "downloadAsset pf (fetchJob k u referer) u kind (usedPaths st) (totalBytes st)
           = (Inr a, used', b')"
  shows "completeNext pf fetchJob rank referer items st
           = startNext referer items
               (st\<lparr>inFlight := remove1 k (inFlight st), usedPaths := used', totalBytes := b',
                   downloaded := (downloaded st)[k := a]\<rparr>)"
  using assms by (simp add: completeNext_def Let_def)

lemma poolProgress_step:
  assumes k: "k < length items" and item: "items ! k = (kind, u)"
    and d: "downloadAsset pf answer u kind (usedPaths st) (totalBytes st) = (res, used', b')"
    and st1: "st1 = st\<lparr>inFlight := fl, usedPaths := used', totalBytes := b'\<rparr>"
  shows "poolProgress items referer st (st1\<lparr>thrown := t\<rparr>)"
    and "res = Inr a \<Longrightarrow> poolProgress items referer st (st1\<lparr>downloaded := (downloaded st)[k := a]\<rparr>)"
proof -
  note r = downloadAsset_result [OF d]
  have mem: "(kind, u) \<in> set items" using k item by (metis nth_mem)
  show "poolProgress items referer st (st1\<lparr>thrown := t\<rparr>)"
    unfolding poolProgress_def st1 using r by auto
  assume res: "res = Inr a"
  have by1: "assetsBytes (okAssets ((downloaded st)[k := a])) + totalBytes st
               \<le> assetsBytes (okAssets (downloaded st)) + b'"
  proof (cases a)
    case None
    with r res have "b' = totalBytes st" by simp
    with okAssets_update_le [of "downloaded st" k a] None show ?thesis by simp
  next
    case (Some x)
    with r res have "b' = totalBytes st + length (assetContent x)" by simp
    with okAssets_update_le [of "downloaded st" k a] Some show ?thesis by simp
  qed
  have new: "Some x \<in> set (downloaded st) \<or> (\<exists>item \<in> set items. originalUrl x = snd item
                  \<and> startsWith (relativePath x) (assetPrefix (fst item)))"
    if "Some x \<in> set ((downloaded st)[k := a])" for x
  proof -
    from that have "Some x = a \<or> Some x \<in> set (downloaded st)"
      using set_update_subset_insert [of "downloaded st" k a] by auto
    then show ?thesis
    proof
      assume "Some x = a"
      with r res have "originalUrl x = u \<and> startsWith (relativePath x) (assetPrefix kind)"
        by auto
      with mem show ?thesis by force
    next
      assume "Some x \<in> set (downloaded st)"
      then show ?thesis by simp
    qed
  qed
  show "poolProgress items referer st (st1\<lparr>downloaded := (downloaded st)[k := a]\<rparr>)"
    unfolding poolProgress_def st1 using r by1 new by auto
qed

lemma completeNext_progress:
  assumes f: "inFlight st \<noteq> []" and r: "inRange items st"
  shows "poolProgress items referer st (completeNext pf fetchJob rank referer items st)"
    and "inRange items (completeNext pf fetchJob rank referer items st)"
proof -
  define k where "k = arg_min_list rank (inFlight st)"
  have k: "k \<in> set (inFlight st)" unfolding k_def using f by (rule arg_min_list_in)
  with r have kl: "k < length items" by (simp add: inRange_def)
  obtain kind u where item: "items ! k = (kind, u)" by (cases "items ! k")
  obtain res used' b' where d: "downloadAsset pf (fetchJob k u referer) u kind
        (usedPaths st) (totalBytes st) = (res, used', b')"
    by (cases "downloadAsset pf (fetchJob k u referer) u kind (usedPaths st) (totalBytes st)")
  have one: "completeNext pf fetchJob rank referer items st
           = st\<lparr>inFlight := remove1 k (inFlight st), usedPaths := used', totalBytes := b',
                thrown := Some m\<rparr>" if "res = Inl m" for m
    using k_def item d [unfolded that] by (rule completeNext_Inl)
  have two: "completeNext pf fetchJob rank referer items st
           = startNext referer items
               (st\<lparr>inFlight := remove1 k (inFlight st), usedPaths := used', totalBytes := b',
                   downloaded := (downloaded st)[k := a]\<rparr>)" if "res = Inr a" for a
    using k_def item d [unfolded that] by (rule completeNext_Inr)
  define st1 where "st1 = st\<lparr>inFlight := remove1 k (inFlight st), usedPaths := used',
                               totalBytes := b'\<rparr>"
  have rm: "\<forall>j \<in> set (remove1 k (inFlight st)). j < length items"
    using r set_remove1_subset [of k "inFlight st"] by (auto simp: inRange_def)
  show "poolProgress items referer st (completeNext pf fetchJob rank referer items st)"
  proof (cases res)
    case (Inl m)
    show ?thesis
      unfolding one [OF Inl] using poolProgress_step(1) [OF kl item d st1_def, of referer "Some m"]
      by (simp add: st1_def)
  next
    case (Inr a)
    have "poolProgress items referer st (st1\<lparr>downloaded := (downloaded st)[k := a]\<rparr>)"
      using kl item d st1_def Inr by (rule poolProgress_step(2))
    moreover have "poolProgress items referer (st1\<lparr>downloaded := (downloaded st)[k := a]\<rparr>)
        (startNext referer items (st1\<lparr>downloaded := (downloaded st)[k := a]\<rparr>))"
      by (rule startNext_progress)
    ultimately show ?thesis
      unfolding two [OF Inr] st1_def by (rule poolProgress_trans)
  qed
  show "inRange items (completeNext pf fetchJob rank referer items st)"
  proof (cases res)
    case (Inl m)
    show ?thesis unfolding one [OF Inl] using rm by (simp add: inRange_def)
  next
    case (Inr a)
    have "inRange items (st\<lparr>inFlight := remove1 k (inFlight st), usedPaths := used',
             totalBytes := b', downloaded := (downloaded st)[k := a]\<rparr>)"
      using rm by (simp add: inRange_def)
    then show ?thesis unfolding two [OF Inr] by (rule startNext_inRange)
  qed
qed

lemma downloadRun_invariant:
  assumes "P st"
    and step: "\<And>s. P s \<Longrightarrow> thrown s = None \<Longrightarrow> inFlight s \<noteq> [] \<Longrightarrow>
                 P (completeNext pf fetchJob rank referer items s)"
  shows "P (downloadRun pf fetchJob rank referer items st)"
  using assms
proof (induction pf fetchJob rank referer items st rule: downloadRun.induct)
  case (1 pf fetchJob rank referer items st)
  show ?case
  proof (cases "thrown st \<noteq> None \<or> inFlight st = []")
    case True
    then have "downloadRun pf fetchJob rank referer items st = st"
      by (subst downloadRun.simps) simp
    with "1.prems"(1) show ?thesis by simp
  next
    case False
    then have e: "downloadRun pf fetchJob rank referer items st
        = downloadRun pf fetchJob rank referer items
            (completeNext pf fetchJob rank referer items st)"
      by (subst downloadRun.simps) simp
    from False have t: "thrown st = None" and f: "inFlight st \<noteq> []" by simp_all
    have "P (completeNext pf fetchJob rank referer items st)"
      using "1.prems"(1) t f by (rule "1.prems"(2))
    then have "P (downloadRun pf fetchJob rank referer items
            (completeNext pf fetchJob rank referer items st))"
      using False "1.prems"(2) by (intro "1.IH") simp_all
    then show ?thesis unfolding e .
  qed
qed

lemma downloadRun_ends:
  "thrown (downloadRun pf fetchJob rank referer items st) \<noteq> None
   \<or> inFlight (downloadRun pf fetchJob rank referer items st) = []"
proof (induction pf fetchJob rank referer items st rule: downloadRun.induct)
  case (1 pf fetchJob rank referer items st)
  show ?case
  proof (cases "thrown st \<noteq> None \<or> inFlight st = []")
    case True
    then have "downloadRun pf fetchJob rank referer items st = st"
      by (subst downloadRun.simps) simp
    with True show ?thesis by simp
  next
    case False
    then have e: "downloadRun pf fetchJob rank referer items st
        = downloadRun pf fetchJob rank referer items
            (completeNext pf fetchJob rank referer items st)"
      by (subst downloadRun.simps) simp
    from "1.IH" False show ?thesis unfolding e by simp
  qed
qed

lemma downloadRun_progress:
  assumes "inRange items st"
  shows "poolProgress items referer st (downloadRun pf fetchJob rank referer items st)"
proof -
  have "poolProgress items referer st (downloadRun pf fetchJob rank referer items st)
        \<and> inRange items (downloadRun pf fetchJob rank referer items st)"
  proof (rule downloadRun_invariant
      [where P = "\<lambda>s. poolProgress items referer st s \<and> inRange items s"])
    show "poolProgress items referer st st \<and> inRange items st"
      using assms by (simp add: poolProgress_refl)
  next
    fix s
    assume p: "poolProgress items referer st s \<and> inRange items s"
      and f: "inFlight s \<noteq> []"
    from p have a: "poolProgress items referer st s" and r: "inRange items s" by simp_all
    have "poolProgress items referer s (completeNext pf fetchJob rank referer items s)"
      using f r by (rule completeNext_progress(1))
    with a have "poolProgress items referer st (completeNext pf fetchJob rank referer items s)"
      by (rule poolProgress_trans)
    moreover have "inRange items (completeNext pf fetchJob rank referer items s)"
      using f r by (rule completeNext_progress(2))
    ultimately show "poolProgress items referer st (completeNext pf fetchJob rank referer items s)
        \<and> inRange items (completeNext pf fetchJob rank referer items s)" ..
  qed
  then show ?thesis ..
qed

lemma downloadAssets_eq:
  "downloadAssets pf w job referer items b
     = downloadRun pf (fetch w job) (completion w job) referer items
         ((startNext referer items ^^ max 1 ASSET_CONCURRENCY) (poolStart items b))"
  by (simp add: downloadAssets_def poolStart_def)

lemma workers_progress:
  "poolProgress items referer (poolStart items b) ((startNext referer items ^^ n) (poolStart items b))
   \<and> inRange items ((startNext referer items ^^ n) (poolStart items b))"
proof (rule funpow_invariant
    [where P = "\<lambda>s. poolProgress items referer (poolStart items b) s \<and> inRange items s"])
  show "poolProgress items referer (poolStart items b) (poolStart items b)
        \<and> inRange items (poolStart items b)"
    by (simp add: poolProgress_refl inRange_def poolStart_def)
next
  fix y
  assume a: "poolProgress items referer (poolStart items b) y \<and> inRange items y"
  then have "poolProgress items referer (poolStart items b) (startNext referer items y)"
    using startNext_progress poolProgress_trans by blast
  with a show "poolProgress items referer (poolStart items b) (startNext referer items y)
        \<and> inRange items (startNext referer items y)"
    by (simp add: startNext_inRange)
qed

lemma downloadAssets_pool:
  "poolProgress items referer (poolStart items b) (downloadAssets pf w job referer items b)"
proof -
  define s1 where "s1 = (startNext referer items ^^ max 1 ASSET_CONCURRENCY) (poolStart items b)"
  have a: "poolProgress items referer (poolStart items b) s1" and r: "inRange items s1"
    unfolding s1_def using workers_progress by blast+
  have "poolProgress items referer s1
          (downloadRun pf (fetch w job) (completion w job) referer items s1)"
    using r by (rule downloadRun_progress)
  with a show ?thesis
    unfolding downloadAssets_eq s1_def [symmetric] by (rule poolProgress_trans)
qed

lemma downloadAssets_progress:
  "totalBytes (downloadAssets pf w job referer items b) \<ge> b
   \<and> (b \<le> MAX_TOTAL_ASSET_BYTES \<longrightarrow>
        totalBytes (downloadAssets pf w job referer items b) \<le> MAX_TOTAL_ASSET_BYTES)
   \<and> (\<forall>e \<in> set (fetched (downloadAssets pf w job referer items b)).
        \<exists>item \<in> set items. e = FetchCall (fst item) (snd item) referer)
   \<and> (\<forall>a \<in> set (okAssets (downloaded (downloadAssets pf w job referer items b))).
        \<exists>item \<in> set items. originalUrl a = snd item
           \<and> startsWith (relativePath a) (assetPrefix (fst item)))
   \<and> assetsBytes (okAssets (downloaded (downloadAssets pf w job referer items b))) + b
        \<le> totalBytes (downloadAssets pf w job referer items b)"
proof -
  have z: "okAssets (replicate n None) = []" for n
    by (induction n) (simp_all add: okAssets_def)
  show ?thesis
    using downloadAssets_pool [of items referer b pf w job]
    unfolding poolProgress_def poolStart_def
    by (simp add: z assetsBytes_def set_okAssets)
qed


lemma fetchLog_take_Suc:
  "c < length items \<Longrightarrow>
   fetchLog referer (take (Suc c) items)
     = fetchLog referer (take c items) @ [FetchCall (fst (items ! c)) (snd (items ! c)) referer]"
  by (simp add: fetchLog_def take_Suc_conv_app_nth)

lemma startNext_logged: "logged referer items s \<Longrightarrow> logged referer items (startNext referer items s)"
  by (simp add: logged_def startNext_fields fetchLog_take_Suc)

lemma startNext_busy: "busy items (startNext referer items s)"
  by (simp add: busy_def startNext_fields)

lemma completeNext_logged:
  assumes "logged referer items s"
  shows "logged referer items (completeNext pf fetchJob rank referer items s)"
    and "busy items (completeNext pf fetchJob rank referer items s)"
proof -
  define k where "k = arg_min_list rank (inFlight s)"
  obtain kind u where item: "items ! k = (kind, u)" by (cases "items ! k")
  obtain res used' b' where d: "downloadAsset pf (fetchJob k u referer) u kind
        (usedPaths s) (totalBytes s) = (res, used', b')"
    by (cases "downloadAsset pf (fetchJob k u referer) u kind (usedPaths s) (totalBytes s)")
  show "logged referer items (completeNext pf fetchJob rank referer items s)"
  proof (cases res)
    case (Inl m)
    have "completeNext pf fetchJob rank referer items s
           = s\<lparr>inFlight := remove1 k (inFlight s), usedPaths := used', totalBytes := b',
                thrown := Some m\<rparr>"
      using k_def item d [unfolded Inl] by (rule completeNext_Inl)
    with assms show ?thesis by (simp add: logged_def)
  next
    case (Inr a)
    have e: "completeNext pf fetchJob rank referer items s
           = startNext referer items
               (s\<lparr>inFlight := remove1 k (inFlight s), usedPaths := used', totalBytes := b',
                   downloaded := (downloaded s)[k := a]\<rparr>)"
      using k_def item d [unfolded Inr] by (rule completeNext_Inr)
    have "logged referer items (s\<lparr>inFlight := remove1 k (inFlight s), usedPaths := used',
             totalBytes := b', downloaded := (downloaded s)[k := a]\<rparr>)"
      using assms by (simp add: logged_def)
    then show ?thesis unfolding e by (rule startNext_logged)
  qed
  show "busy items (completeNext pf fetchJob rank referer items s)"
  proof (cases res)
    case (Inl m)
    have "completeNext pf fetchJob rank referer items s
           = s\<lparr>inFlight := remove1 k (inFlight s), usedPaths := used', totalBytes := b',
                thrown := Some m\<rparr>"
      using k_def item d [unfolded Inl] by (rule completeNext_Inl)
    then show ?thesis by (simp add: busy_def)
  next
    case (Inr a)
    have e: "completeNext pf fetchJob rank referer items s
           = startNext referer items
               (s\<lparr>inFlight := remove1 k (inFlight s), usedPaths := used', totalBytes := b',
                   downloaded := (downloaded s)[k := a]\<rparr>)"
      using k_def item d [unfolded Inr] by (rule completeNext_Inr)
    show ?thesis unfolding e by (rule startNext_busy)
  qed
qed

lemma workers_logged:
  "logged referer items ((startNext referer items ^^ n) (poolStart items b))"
proof (rule funpow_invariant [where P = "logged referer items"])
  show "logged referer items (poolStart items b)"
    by (simp add: logged_def poolStart_def fetchLog_def)
next
  fix y
  assume "logged referer items y"
  then show "logged referer items (startNext referer items y)" by (rule startNext_logged)
qed

lemma workers_busy:
  "busy items ((startNext referer items ^^ max 1 ASSET_CONCURRENCY) (poolStart items b))"
proof -
  obtain n where "max 1 ASSET_CONCURRENCY = Suc n"
    by (cases "max 1 ASSET_CONCURRENCY") simp_all
  then show ?thesis by (simp add: startNext_busy)
qed

lemma downloadAssets_logged:
  "logged referer items (downloadAssets pf w job referer items b)
   \<and> busy items (downloadAssets pf w job referer items b)"
  unfolding downloadAssets_eq
proof (rule downloadRun_invariant [where P = "\<lambda>s. logged referer items s \<and> busy items s"])
  show "logged referer items ((startNext referer items ^^ max 1 ASSET_CONCURRENCY) (poolStart items b))
        \<and> busy items ((startNext referer items ^^ max 1 ASSET_CONCURRENCY) (poolStart items b))"
    using workers_logged workers_busy by blast
next
  fix s
  assume "logged referer items s \<and> busy items s"
  then have "logged referer items s" ..
  then show "logged referer items (completeNext pf (fetch w job) (completion w job) referer items s)
        \<and> busy items (completeNext pf (fetch w job) (completion w job) referer items s)"
    using completeNext_logged by blast
qed

lemma downloadAssets_fetched:
  assumes "thrown (downloadAssets pf w job referer items b) = None"
  shows "fetched (downloadAssets pf w job referer items b) = fetchLog referer items"
proof -
  define d where "d = downloadAssets pf w job referer items b"
  have l: "logged referer items d" and u: "busy items d"
    unfolding d_def using downloadAssets_logged by blast+
  have "thrown d \<noteq> None \<or> inFlight d = []"
    unfolding d_def downloadAssets_eq by (rule downloadRun_ends)
  with assms have "inFlight d = []" by (simp add: d_def)
  with u assms have "length items \<le> cursor d" by (simp add: busy_def d_def)
  with l show ?thesis by (simp add: logged_def d_def)
qed

lemma downloadAssets_fetched_prefix:
  "\<exists>n. fetched (downloadAssets pf w job referer items b) = fetchLog referer (take n items)"
  using downloadAssets_logged [of referer items pf w job b] unfolding logged_def by blast

section \<open>The bytes of a run\<close>

lemma safeArticleFolder_no_slash: "safeArticleFolder pf u ttl i = Some f \<Longrightarrow> 0x2F \<notin> set f"
proof -
  assume s: "safeArticleFolder pf u ttl i = Some f"
  define pre where "pre = padStart 3 0x30 (toStringRadix 10 (i + 1))"
  have np: "0x2F \<notin> set pre" unfolding pre_def by (rule slash_not_digit)
  have us: "0x2F \<notin> set (js ''_'')" and ar: "0x2F \<notin> set (js ''article_'')"
    by (simp_all add: js_def)
  from s obtain b where f: "f = pre @ js ''_'' @ b" and b: "0x2F \<notin> set b"
    unfolding safeArticleFolder_def Let_def pre_def [symmetric] orElse_def
    using slash_not_sanitized np ar
    by (auto split: if_splits option.splits)
  show ?thesis using f np us b by simp
qed

lemma failedJob_eq:
  "safeArticleFolder pf u None i = None \<Longrightarrow>
     failedJob pf st i u err = st\<lparr>failure := Some (js ''Invalid URL'')\<rparr>"
  "safeArticleFolder pf u None i = Some f \<Longrightarrow>
     failedJob pf st i u err =
       st\<lparr>tarEntries := tarEntries st
              @ [TarFile (f @ js ''/error.md'') (utf8Encode (errorMd u err)) None None],
          runManifest := (runManifest st)
            \<lparr>failed := failed (runManifest st) + 1,
             results := results (runManifest st) @ [JobFailed u f err]\<rparr>\<rparr>"
  by (simp_all add: failedJob_def)

lemma extractedJob_eq:
  "safeArticleFolder pf u (title r) i = None \<Longrightarrow>
     extractedJob pf w options st i u r assets = st\<lparr>failure := Some (js ''Invalid URL'')\<rparr>"
  "safeArticleFolder pf u (title r) i = Some f \<Longrightarrow>
   thrown (downloadAssets pf w i u (assetItems (pickAssets assets options)) (assetBytes st))
     = Some message \<Longrightarrow>
     extractedJob pf w options st i u r assets =
       st\<lparr>assetBytes := totalBytes (downloadAssets pf w i u
               (assetItems (pickAssets assets options)) (assetBytes st)),
          events := events st @ fetched (downloadAssets pf w i u
               (assetItems (pickAssets assets options)) (assetBytes st)),
          failure := Some message\<rparr>"
  "safeArticleFolder pf u (title r) i = Some f \<Longrightarrow>
   thrown (downloadAssets pf w i u (assetItems (pickAssets assets options)) (assetBytes st))
     = None \<Longrightarrow>
     extractedJob pf w options st i u r assets =
       st\<lparr>assetBytes := totalBytes (downloadAssets pf w i u
               (assetItems (pickAssets assets options)) (assetBytes st)),
          events := events st @ fetched (downloadAssets pf w i u
               (assetItems (pickAssets assets options)) (assetBytes st)),
          tarEntries := tarEntries st
            @ map (assetEntry f) (okAssets (downloaded (downloadAssets pf w i u
                (assetItems (pickAssets assets options)) (assetBytes st))))
            @ [TarFile (f @ js ''/index.md'')
                 (utf8Encode (rewriteMarkdown (buildArticleMarkdown r)
                    (okAssets (downloaded (downloadAssets pf w i u
                       (assetItems (pickAssets assets options)) (assetBytes st))))))
                 None None],
          runManifest := (runManifest st)
            \<lparr>success := success (runManifest st) + 1,
             results := results (runManifest st)
               @ [JobOk u f (length (images (pickAssets assets options)))
                    (length (files (pickAssets assets options)))
                    (length (okAssets (downloaded (downloadAssets pf w i u
                       (assetItems (pickAssets assets options)) (assetBytes st)))))]\<rparr>\<rparr>"
  by (simp_all add: extractedJob_def Let_def assetEntry_def)


lemma foldl_invariant:
  "P st \<Longrightarrow> (\<And>st job. P st \<Longrightarrow> P (processJob pf w options st job)) \<Longrightarrow>
   P (foldl (processJob pf w options) st jobs)"
  by (induction jobs arbitrary: st) simp_all

lemma js_append: "js (a @ b) = js a @ js b"
  by (simp add: js_def)

lemma inside_md:
  "0x2F \<notin> set f \<Longrightarrow> insideFolder (f @ js ''/error.md'') = js ''error.md''"
  "0x2F \<notin> set f \<Longrightarrow> insideFolder (f @ js ''/index.md'') = js ''index.md''"
proof -
  assume a: "0x2F \<notin> set f"
  have "js ''/error.md'' = js ''/'' @ js ''error.md''" by (simp add: js_def)
  then show "insideFolder (f @ js ''/error.md'') = js ''error.md''"
    using insideFolder_path [OF a, of "js ''error.md''"] by simp
  have "js ''/index.md'' = js ''/'' @ js ''index.md''" by (simp add: js_def)
  then show "insideFolder (f @ js ''/index.md'') = js ''index.md''"
    using insideFolder_path [OF a, of "js ''index.md''"] by simp
qed

lemma md_not_assets:
  "\<not> startsWith (js ''error.md'') (js ''assets/'')"
  "\<not> startsWith (js ''index.md'') (js ''assets/'')"
  "\<not> startsWith (js ''error.md'') (assetPrefix kind)"
  "\<not> startsWith (js ''index.md'') (assetPrefix kind)"
  by (cases kind; simp add: startsWith_def assetPrefix_def js_def)+

lemma assetEntryBytes_append:
  "assetEntryBytes (xs @ ys) = assetEntryBytes xs + assetEntryBytes ys"
  by (simp add: assetEntryBytes_def)

lemma assetEntryBytes_md:
  "0x2F \<notin> set f \<Longrightarrow> assetEntryBytes [TarFile (f @ js ''/error.md'') c None None] = 0"
  "0x2F \<notin> set f \<Longrightarrow> assetEntryBytes [TarFile (f @ js ''/index.md'') c None None] = 0"
  by (simp_all add: assetEntryBytes_def inside_md md_not_assets)

lemma assetEntryBytes_assets:
  "assetEntryBytes (map (assetEntry f) as) \<le> assetsBytes as"
proof (induction as)
  case Nil
  show ?case by (simp add: assetEntryBytes_def assetsBytes_def)
next
  case (Cons a as)
  then show ?case by (simp add: assetEntryBytes_def assetsBytes_def assetEntry_def)
qed

lemma processJob_bytes:
  "bytesInvariant st \<Longrightarrow> bytesInvariant (processJob pf w options st job)"
proof -
  assume inv: "bytesInvariant st"
  obtain k u where job: "job = (k, u)" by (cases job)
  show ?thesis
  proof (cases "failure st")
    case (Some m)
    with inv show ?thesis by (simp add: processJob_def)
  next
    case None
    show ?thesis
    proof (cases "extractArticleWithAssets w k u")
      case (ExtractError err)
      show ?thesis
      proof (cases "safeArticleFolder pf u None k")
        case none: None
        with inv None job ExtractError show ?thesis
          by (simp add: processJob_def failedJob_eq bytesInvariant_def)
      next
        case (Some f)
        from safeArticleFolder_no_slash [OF Some] have "0x2F \<notin> set f" .
        with inv None job ExtractError Some show ?thesis
          by (simp add: processJob_def failedJob_eq bytesInvariant_def assetEntryBytes_append
              assetEntryBytes_md)
      qed
    next
      case (Extracted r assets)
      define d where "d = downloadAssets pf w k u (assetItems (pickAssets assets options)) (assetBytes st)"
      note p = downloadAssets_progress [of "assetBytes st" pf w k u "assetItems (pickAssets assets options)",
          folded d_def]
      show ?thesis
      proof (cases "safeArticleFolder pf u (title r) k")
        case none: None
        with inv None job Extracted show ?thesis
          by (simp add: processJob_def extractedJob_eq bytesInvariant_def)
      next
        case (Some f)
        from safeArticleFolder_no_slash [OF Some] have ns: "0x2F \<notin> set f" .
        show ?thesis
        proof (cases "thrown d")
          case thrown: (Some m)
          have "processJob pf w options st job =
                  st\<lparr>assetBytes := totalBytes d, events := events st @ fetched d, failure := Some m\<rparr>"
            using None job Extracted Some thrown
            by (simp add: processJob_def extractedJob_eq(2) [OF Some] d_def)
          with inv p show ?thesis by (simp add: bytesInvariant_def)
        next
          case clean: None
          have "tarEntries (processJob pf w options st job) =
                  tarEntries st @ map (assetEntry f) (okAssets (downloaded d))
                    @ [TarFile (f @ js ''/index.md'')
                        (utf8Encode (rewriteMarkdown (buildArticleMarkdown r) (okAssets (downloaded d))))
                        None None]"
            and "assetBytes (processJob pf w options st job) = totalBytes d"
            using None job Extracted Some clean
            by (simp_all add: processJob_def extractedJob_eq(3) [OF Some] d_def)
          moreover have "assetEntryBytes (map (assetEntry f) (okAssets (downloaded d)))
                           \<le> assetsBytes (okAssets (downloaded d))"
            by (rule assetEntryBytes_assets)
          ultimately show ?thesis
            using inv p ns
            by (simp add: bytesInvariant_def assetEntryBytes_append assetEntryBytes_md)
        qed
      qed
    qed
  qed
qed

section \<open>An asset kind that is turned off\<close>

lemma disabled_items:
  "\<not> kindEnabled options kind \<Longrightarrow> item \<in> set (assetItems (pickAssets assets options)) \<Longrightarrow>
   fst item \<noteq> kind"
  by (cases kind) (auto simp: assetItems_def pickAssets_def)

lemma assetPrefix_exclusive:
  "startsWith x (assetPrefix k1) \<Longrightarrow> k1 \<noteq> k2 \<Longrightarrow> \<not> startsWith x (assetPrefix k2)"
proof
  assume a: "startsWith x (assetPrefix k1)" and n: "k1 \<noteq> k2" and b: "startsWith x (assetPrefix k2)"
  have i: "take 14 x = js ''assets/images/'' \<Longrightarrow> take 13 x = js ''assets/files/'' \<Longrightarrow> False"
  proof -
    assume p: "take 14 x = js ''assets/images/''" and q: "take 13 x = js ''assets/files/''"
    have "take 13 (take 14 x) = take 13 x" by simp
    with p q have "take 13 (js ''assets/images/'') = js ''assets/files/''" by simp
    then show False by (simp add: js_def)
  qed
  have pi: "assetPrefix Images = js ''assets/images/''" "assetPrefix Files = js ''assets/files/''"
    by (simp_all add: assetPrefix_def js_def)
  have li: "length (js ''assets/images/'') = 14" "length (js ''assets/files/'') = 13"
    by (simp_all add: js_def)
  have both: "startsWith x (assetPrefix Images) \<Longrightarrow> startsWith x (assetPrefix Files) \<Longrightarrow> False"
  proof -
    assume "startsWith x (assetPrefix Images)" and "startsWith x (assetPrefix Files)"
    then have "take 14 x = js ''assets/images/''" and "take 13 x = js ''assets/files/''"
      by (simp_all only: startsWith_def pi li)
    then show False by (rule i)
  qed
  show False
  proof (cases k1)
    case Images
    with n have "k2 = Files" by (cases k2) simp_all
    with Images a b both show False by simp
  next
    case Files
    with n have "k2 = Images" by (cases k2) simp_all
    with Files a b both show False by simp
  qed
qed

lemma fetchesOf_append: "fetchesOf kind (xs @ ys) = fetchesOf kind xs @ fetchesOf kind ys"
  by (simp add: fetchesOf_def)

lemma entriesUnder_append:
  "entriesUnder kind (xs @ ys) = entriesUnder kind xs @ entriesUnder kind ys"
  by (simp add: entriesUnder_def)

lemma entriesUnder_md:
  "0x2F \<notin> set f \<Longrightarrow> entriesUnder kind [TarFile (f @ js ''/error.md'') c None None] = []"
  "0x2F \<notin> set f \<Longrightarrow> entriesUnder kind [TarFile (f @ js ''/index.md'') c None None] = []"
  by (simp_all add: entriesUnder_def inside_md md_not_assets)

lemma processJob_kindFree:
  "\<not> kindEnabled options kind \<Longrightarrow> kindFree kind st \<Longrightarrow>
   kindFree kind (processJob pf w options st job)"
proof -
  assume off: "\<not> kindEnabled options kind" and inv: "kindFree kind st"
  obtain k u where job: "job = (k, u)" by (cases job)
  show ?thesis
  proof (cases "failure st")
    case (Some m)
    with inv show ?thesis by (simp add: processJob_def)
  next
    case None
    show ?thesis
    proof (cases "extractArticleWithAssets w k u")
      case (ExtractError err)
      show ?thesis
      proof (cases "safeArticleFolder pf u None k")
        case none: None
        with inv None job ExtractError show ?thesis
          by (simp add: processJob_def failedJob_eq kindFree_def)
      next
        case (Some f)
        from safeArticleFolder_no_slash [OF Some] have "0x2F \<notin> set f" .
        with inv None job ExtractError Some show ?thesis
          by (simp add: processJob_def failedJob_eq kindFree_def entriesUnder_append
              entriesUnder_md)
      qed
    next
      case (Extracted r assets)
      define items where "items = assetItems (pickAssets assets options)"
      define d where "d = downloadAssets pf w k u items (assetBytes st)"
      note p = downloadAssets_progress [of "assetBytes st" pf w k u items, folded d_def]
      have ev: "fetchesOf kind (fetched d) = []"
      proof -
        have "\<not> isFetchOf kind e" if "e \<in> set (fetched d)" for e
        proof -
          from p that obtain item where "item \<in> set items"
            and e: "e = FetchCall (fst item) (snd item) u" by blast
          then have "fst item \<noteq> kind" using disabled_items [OF off] by (simp add: items_def)
          with e show ?thesis by simp
        qed
        then show ?thesis by (simp add: fetchesOf_def)
      qed
      show ?thesis
      proof (cases "safeArticleFolder pf u (title r) k")
        case none: None
        with inv None job Extracted show ?thesis
          by (simp add: processJob_def extractedJob_eq kindFree_def)
      next
        case (Some f)
        from safeArticleFolder_no_slash [OF Some] have ns: "0x2F \<notin> set f" .
        show ?thesis
        proof (cases "thrown d")
          case thrown: (Some m)
          have "processJob pf w options st job =
                  st\<lparr>assetBytes := totalBytes d, events := events st @ fetched d, failure := Some m\<rparr>"
            using None job Extracted Some thrown
            by (simp add: processJob_def extractedJob_eq(2) [OF Some] d_def items_def)
          with inv ev show ?thesis by (simp add: kindFree_def fetchesOf_append)
        next
          case clean: None
          have t: "tarEntries (processJob pf w options st job) =
                  tarEntries st @ map (assetEntry f) (okAssets (downloaded d))
                    @ [TarFile (f @ js ''/index.md'')
                        (utf8Encode (rewriteMarkdown (buildArticleMarkdown r) (okAssets (downloaded d))))
                        None None]"
            and e: "events (processJob pf w options st job) = events st @ fetched d"
            using None job Extracted Some clean
            by (simp_all add: processJob_def extractedJob_eq(3) [OF Some] d_def items_def)
          have "\<not> startsWith (insideFolder (path (assetEntry f a))) (assetPrefix kind)"
            if "a \<in> set (okAssets (downloaded d))" for a
          proof -
            from p that obtain item where "item \<in> set items"
              and s: "startsWith (relativePath a) (assetPrefix (fst item))" by blast
            then have "fst item \<noteq> kind" using disabled_items [OF off] by (simp add: items_def)
            with s have "\<not> startsWith (relativePath a) (assetPrefix kind)"
              by (rule assetPrefix_exclusive)
            then show ?thesis by (simp add: assetEntry_def insideFolder_path [OF ns])
          qed
          then have "entriesUnder kind (map (assetEntry f) (okAssets (downloaded d))) = []"
            by (simp add: entriesUnder_def)
          with inv ev ns show ?thesis
            unfolding kindFree_def t e
            by (simp add: fetchesOf_append entriesUnder_append entriesUnder_md)
        qed
      qed
    qed
  qed
qed

section \<open>The manifest and the folders\<close>

lemma processJob_total:
  "total (runManifest (processJob pf w options st job)) = total (runManifest st)"
proof -
  obtain k u where job: "job = (k, u)" by (cases job)
  show ?thesis
  proof (cases "failure st")
    case (Some m)
    then show ?thesis by (simp add: processJob_def)
  next
    case None
    show ?thesis
    proof (cases "extractArticleWithAssets w k u")
      case (ExtractError err)
      with None job show ?thesis
        by (cases "safeArticleFolder pf u None k") (simp_all add: processJob_def failedJob_eq)
    next
      case (Extracted r assets)
      show ?thesis
      proof (cases "safeArticleFolder pf u (title r) k")
        case none: None
        with None job Extracted show ?thesis by (simp add: processJob_def extractedJob_eq)
      next
        case (Some f)
        with None job Extracted show ?thesis
          by (cases "thrown (downloadAssets pf w k u (assetItems (pickAssets assets options))
                (assetBytes st))")
             (simp_all add: processJob_def extractedJob_eq(2,3) [OF Some])
      qed
    qed
  qed
qed

lemma processJob_shape:
  assumes "failure st = None" and "failure (processJob pf w options st (k, u)) = None"
  shows "\<exists>f es rec ttl. safeArticleFolder pf u ttl k = Some f
        \<and> tarEntries (processJob pf w options st (k, u)) = tarEntries st @ es
        \<and> es \<noteq> [] \<and> (\<forall>e \<in> set es. \<exists>rest. path e = f @ js ''/'' @ rest)
        \<and> results (runManifest (processJob pf w options st (k, u)))
            = results (runManifest st) @ [rec]
        \<and> success (runManifest (processJob pf w options st (k, u)))
            = success (runManifest st) + (if isFailed rec then 0 else 1)
        \<and> failed (runManifest (processJob pf w options st (k, u)))
            = failed (runManifest st) + (if isFailed rec then 1 else 0)
        \<and> jobUrl rec = u \<and> jobFolder rec = f \<and> folderContent rec es
        \<and> jobMatches w options k u rec"
proof (cases "extractArticleWithAssets w k u")
  case (ExtractError err)
  show ?thesis
  proof (cases "safeArticleFolder pf u None k")
    case None
    with assms ExtractError show ?thesis by (simp add: processJob_def failedJob_eq)
  next
    case (Some f)
    define es where "es = [TarFile (f @ js ''/error.md'') (utf8Encode (errorMd u err)) None None]"
    have p: "js ''/error.md'' = js ''/'' @ js ''error.md''" by (simp add: js_def)
    have "safeArticleFolder pf u None k = Some f
        \<and> tarEntries (processJob pf w options st (k, u)) = tarEntries st @ es
        \<and> es \<noteq> [] \<and> (\<forall>e \<in> set es. \<exists>rest. path e = f @ js ''/'' @ rest)
        \<and> results (runManifest (processJob pf w options st (k, u)))
            = results (runManifest st) @ [JobFailed u f err]
        \<and> success (runManifest (processJob pf w options st (k, u)))
            = success (runManifest st) + (if isFailed (JobFailed u f err) then 0 else 1)
        \<and> failed (runManifest (processJob pf w options st (k, u)))
            = failed (runManifest st) + (if isFailed (JobFailed u f err) then 1 else 0)
        \<and> jobUrl (JobFailed u f err) = u \<and> jobFolder (JobFailed u f err) = f
        \<and> folderContent (JobFailed u f err) es
        \<and> jobMatches w options k u (JobFailed u f err)"
      using assms ExtractError Some
      by (simp add: processJob_def failedJob_eq es_def p jobMatches_def)
    then show ?thesis by blast
  qed
next
  case (Extracted r assets)
  define d where "d = downloadAssets pf w k u (assetItems (pickAssets assets options)) (assetBytes st)"
  show ?thesis
  proof (cases "safeArticleFolder pf u (title r) k")
    case None
    with assms Extracted show ?thesis by (simp add: processJob_def extractedJob_eq)
  next
    case (Some f)
    show ?thesis
    proof (cases "thrown d")
      case thrown: (Some m)
      with assms Extracted Some show ?thesis
        by (simp add: processJob_def extractedJob_eq(2) [OF Some] d_def)
    next
      case clean: None
      define oks where "oks = okAssets (downloaded d)"
      define es where "es = map (assetEntry f) oks
          @ [TarFile (f @ js ''/index.md'') (utf8Encode (rewriteMarkdown (buildArticleMarkdown r) oks))
               None None]"
      define rec where "rec = JobOk u f (length (images (pickAssets assets options)))
          (length (files (pickAssets assets options))) (length oks)"
      have p: "js ''/index.md'' = js ''/'' @ js ''index.md''" by (simp add: js_def)
      have paths: "\<forall>e \<in> set es. \<exists>rest. path e = f @ js ''/'' @ rest"
        unfolding es_def by (auto simp: assetEntry_def p)
      have "safeArticleFolder pf u (title r) k = Some f
        \<and> tarEntries (processJob pf w options st (k, u)) = tarEntries st @ es
        \<and> es \<noteq> [] \<and> (\<forall>e \<in> set es. \<exists>rest. path e = f @ js ''/'' @ rest)
        \<and> results (runManifest (processJob pf w options st (k, u)))
            = results (runManifest st) @ [rec]
        \<and> success (runManifest (processJob pf w options st (k, u)))
            = success (runManifest st) + (if isFailed rec then 0 else 1)
        \<and> failed (runManifest (processJob pf w options st (k, u)))
            = failed (runManifest st) + (if isFailed rec then 1 else 0)
        \<and> jobUrl rec = u \<and> jobFolder rec = f \<and> folderContent rec es
        \<and> jobMatches w options k u rec"
        using assms Extracted Some clean paths
        by (simp add: processJob_def extractedJob_eq(3) [OF Some] d_def [symmetric]
            oks_def [symmetric] es_def rec_def jobMatches_def)
      then show ?thesis by blast
    qed
  qed
qed


lemma remdups_replicate: "0 < n \<Longrightarrow> remdups (replicate n x) = [x]"
proof (induction n)
  case 0
  then show ?case by simp
next
  case (Suc n)
  then show ?case by (cases n) simp_all
qed

lemma remdups_append_fresh:
  "x \<notin> set xs \<Longrightarrow> 0 < n \<Longrightarrow> remdups (xs @ replicate n x) = remdups xs @ [x]"
proof (induction xs)
  case Nil
  then show ?case by (simp add: remdups_replicate)
next
  case (Cons y ys)
  then show ?case by auto
qed

lemma map_constant: "(\<forall>e \<in> set es. g e = x) \<Longrightarrow> map g es = replicate (length es) x"
  by (induction es) simp_all

lemma manifestInvariant_step:
  assumes inv: "manifestInvariant w options n seen st" and k: "length seen < 999"
  shows "manifestInvariant w options n (seen @ [u]) (processJob pf w options st (length seen, u))"
proof (cases "failure st = None \<and> failure (processJob pf w options st (length seen, u)) = None")
  case False
  have t: "total (runManifest (processJob pf w options st (length seen, u))) = n"
    using inv by (simp add: processJob_total manifestInvariant_def)
  show ?thesis
  proof (cases "failure st")
    case None
    with False obtain m where "failure (processJob pf w options st (length seen, u)) = Some m"
      by (cases "failure (processJob pf w options st (length seen, u))") simp_all
    with t show ?thesis by (simp add: manifestInvariant_def)
  next
    case (Some m)
    then have "processJob pf w options st (length seen, u) = st" by (simp add: processJob_def)
    with Some inv show ?thesis by (simp add: manifestInvariant_def)
  qed
next
  case True
  define st' where "st' = processJob pf w options st (length seen, u)"
  define rs where "rs = results (runManifest st)"
  from True have f0: "failure st = None" and f1: "failure st' = None" by (simp_all add: st'_def)
  from True have a0: "failure st = None"
    and a1: "failure (processJob pf w options st (length seen, u)) = None" by simp_all
  from processJob_shape [OF a0 a1]
  obtain f es rec ttl where sh: "safeArticleFolder pf u ttl (length seen) = Some f
        \<and> tarEntries (processJob pf w options st (length seen, u)) = tarEntries st @ es
        \<and> es \<noteq> [] \<and> (\<forall>e \<in> set es. \<exists>rest. path e = f @ js ''/'' @ rest)
        \<and> results (runManifest (processJob pf w options st (length seen, u)))
            = results (runManifest st) @ [rec]
        \<and> success (runManifest (processJob pf w options st (length seen, u)))
            = success (runManifest st) + (if isFailed rec then 0 else 1)
        \<and> failed (runManifest (processJob pf w options st (length seen, u)))
            = failed (runManifest st) + (if isFailed rec then 1 else 0)
        \<and> jobUrl rec = u \<and> jobFolder rec = f \<and> folderContent rec es
        \<and> jobMatches w options (length seen) u rec"
    by (elim exE) (rule that)
  from sh have folder: "safeArticleFolder pf u ttl (length seen) = Some f"
    and ent: "tarEntries st' = tarEntries st @ es"
    and ne: "es \<noteq> []"
    and paths: "\<forall>e \<in> set es. \<exists>rest. path e = f @ js ''/'' @ rest"
    and res: "results (runManifest st') = rs @ [rec]"
    and suc: "success (runManifest st') = success (runManifest st) + (if isFailed rec then 0 else 1)"
    and fai: "failed (runManifest st') = failed (runManifest st) + (if isFailed rec then 1 else 0)"
    and ru: "jobUrl rec = u" and rf: "jobFolder rec = f" and fc: "folderContent rec es"
    and jm: "jobMatches w options (length seen) u rec"
    unfolding st'_def rs_def by simp_all
  from inv f0 have i1: "success (runManifest st) = length (filter (\<lambda>r. \<not> isFailed r) rs)"
    and i2: "failed (runManifest st) = length (filter isFailed rs)"
    and i3: "map jobUrl rs = seen"
    and i4: "\<forall>i < length seen. folderOf i (jobFolder (rs ! i))"
    and i4': "\<forall>i < length seen. jobMatches w options i (seen ! i) (rs ! i)"
    and i5: "topFolders (tarEntries st) = map jobFolder rs"
    and i6: "\<forall>e \<in> set (tarEntries st). 0x2F \<in> set (path e)"
    and i7: "\<forall>r \<in> set rs. folderContent r (filter (inFolder (jobFolder r)) (tarEntries st))"
    by (simp_all add: manifestInvariant_def rs_def)
  have len: "length rs = length seen" using i3 by (metis length_map)
  have fo: "folderOf (length seen) f" using folder k by (rule safeArticleFolder_folderOf)
  then have ns: "0x2F \<notin> set f" by (simp add: folderOf_def)
  have fresh: "f \<notin> set (map jobFolder rs)"
  proof
    assume "f \<in> set (map jobFolder rs)"
    then obtain i where i: "i < length rs" and "jobFolder (rs ! i) = f"
      by (metis in_set_conv_nth length_map nth_map)
    with i4 len have fi: "folderOf i f" by auto
    from fi fo have "i = length seen" by (rule folderOf_inj)
    with i len show False by simp
  qed
  have top: "topFolder (path e) = f" and slash: "0x2F \<in> set (path e)" if "e \<in> set es" for e
  proof -
    from paths that obtain rest where "path e = f @ js ''/'' @ rest" by blast
    then show "topFolder (path e) = f" and "0x2F \<in> set (path e)"
      using topFolder_path [OF ns] slash_in_path by simp_all
  qed
  have t1: "total (runManifest st') = n"
    using inv by (simp add: st'_def processJob_total manifestInvariant_def)
  have t2: "success (runManifest st') = length (filter (\<lambda>r. \<not> isFailed r) (rs @ [rec]))"
    using suc i1 by simp
  have t3: "failed (runManifest st') = length (filter isFailed (rs @ [rec]))"
    using fai i2 by simp
  have t4: "map jobUrl (rs @ [rec]) = seen @ [u]" using i3 ru by simp
  have t5: "\<forall>i < length (seen @ [u]). folderOf i (jobFolder ((rs @ [rec]) ! i))
               \<and> jobMatches w options i ((seen @ [u]) ! i) ((rs @ [rec]) ! i)"
  proof (intro allI impI)
    fix i assume "i < length (seen @ [u])"
    then have "i < length seen \<or> i = length seen" by auto
    then show "folderOf i (jobFolder ((rs @ [rec]) ! i))
               \<and> jobMatches w options i ((seen @ [u]) ! i) ((rs @ [rec]) ! i)"
    proof
      assume "i < length seen"
      with i4 i4' len show ?thesis by (simp add: nth_append)
    next
      assume "i = length seen"
      with fo rf len jm show ?thesis by (simp add: nth_append)
    qed
  qed
  have fes: "filter (\<lambda>e. 0x2F \<in> set (path e)) es = es" using slash by (simp add: filter_id_conv)
  have mes: "map (\<lambda>e. topFolder (path e)) es = replicate (length es) f"
    by (rule map_constant) (use top in simp)
  have old: "set (map (\<lambda>e. topFolder (path e)) (filter (\<lambda>e. 0x2F \<in> set (path e)) (tarEntries st)))
               = set (map jobFolder rs)"
  proof -
    have "set (topFolders (tarEntries st)) = set (map jobFolder rs)" using i5 by simp
    then show ?thesis by (simp add: topFolders_def)
  qed
  have t6: "topFolders (tarEntries st @ es) = map jobFolder (rs @ [rec])"
  proof -
    have "f \<notin> set (map (\<lambda>e. topFolder (path e)) (filter (\<lambda>e. 0x2F \<in> set (path e)) (tarEntries st)))"
      using fresh old by simp
    then have "remdups (map (\<lambda>e. topFolder (path e)) (filter (\<lambda>e. 0x2F \<in> set (path e)) (tarEntries st))
                 @ replicate (length es) f)
             = remdups (map (\<lambda>e. topFolder (path e)) (filter (\<lambda>e. 0x2F \<in> set (path e)) (tarEntries st)))
                 @ [f]"
      by (rule remdups_append_fresh) (use ne in simp)
    then show ?thesis using i5 rf by (simp add: topFolders_def fes mes)
  qed
  have t7: "\<forall>e \<in> set (tarEntries st @ es). 0x2F \<in> set (path e)" using i6 slash by auto
  have none_new: "filter (inFolder g) es = []" if "g \<noteq> f" for g
    using top that by (auto simp: inFolder_def filter_empty_conv)
  have all_new: "filter (inFolder f) es = es"
    using top slash by (simp add: inFolder_def filter_id_conv)
  have none_old: "filter (inFolder f) (tarEntries st) = []"
  proof -
    have "\<not> inFolder f e" if "e \<in> set (tarEntries st)" for e
    proof
      assume "inFolder f e"
      then have "0x2F \<in> set (path e)" and "topFolder (path e) = f" by (simp_all add: inFolder_def)
      with that have "f \<in> set (map (\<lambda>e. topFolder (path e))
          (filter (\<lambda>e. 0x2F \<in> set (path e)) (tarEntries st)))" by force
      with old fresh show False by simp
    qed
    then show ?thesis by (simp add: filter_empty_conv)
  qed
  have t8: "\<forall>r \<in> set (rs @ [rec]). folderContent r (filter (inFolder (jobFolder r)) (tarEntries st @ es))"
  proof
    fix r assume "r \<in> set (rs @ [rec])"
    then have "r \<in> set rs \<or> r = rec" by auto
    then show "folderContent r (filter (inFolder (jobFolder r)) (tarEntries st @ es))"
    proof
      assume r: "r \<in> set rs"
      then have "jobFolder r \<noteq> f" using fresh by auto
      with none_new have "filter (inFolder (jobFolder r)) es = []" by simp
      with i7 r show ?thesis by simp
    next
      assume "r = rec"
      with rf fc none_old all_new show ?thesis by simp
    qed
  qed
  show ?thesis
    unfolding manifestInvariant_def st'_def [symmetric] ent res
    using t1 t2 t3 t4 t5 t6 t7 t8 by simp
qed

lemma manifestInvariant_fold:
  "manifestInvariant w options n seen st \<Longrightarrow> length seen + length us \<le> 999 \<Longrightarrow>
   manifestInvariant w options n (seen @ us)
     (foldl (processJob pf w options) st (zip [length seen..<length seen + length us] us))"
proof (induction us arbitrary: seen st)
  case Nil
  then show ?case by simp
next
  case (Cons u us)
  have "[length seen..<length seen + length (u # us)]
          = length seen # [Suc (length seen)..<length seen + length (u # us)]"
    by (rule upt_conv_Cons) simp
  then have z: "zip [length seen..<length seen + length (u # us)] (u # us)
             = (length seen, u) # zip [length (seen @ [u])..<length (seen @ [u]) + length us] us"
    by simp
  have "manifestInvariant w options n (seen @ [u]) (processJob pf w options st (length seen, u))"
    using Cons.prems by (intro manifestInvariant_step) simp_all
  then have "manifestInvariant w options n ((seen @ [u]) @ us)
     (foldl (processJob pf w options) (processJob pf w options st (length seen, u))
        (zip [length (seen @ [u])..<length (seen @ [u]) + length us] us))"
    using Cons.prems by (intro Cons.IH) simp_all
  then show ?case unfolding z by simp
qed

lemma packageRun_manifest:
  "length urls \<le> 999 \<Longrightarrow> manifestInvariant w options (length urls) urls (packageRun pf w urls options)"
proof -
  assume l: "length urls \<le> 999"
  define st0 :: runState where "st0 = \<lparr>tarEntries = [],
        runManifest = \<lparr>total = length urls, success = 0, failed = 0, results = []\<rparr>,
        assetBytes = 0, events = map ExtractCall urls, failure = None\<rparr>"
  have "manifestInvariant w options (length urls) [] st0"
    by (simp add: manifestInvariant_def st0_def topFolders_def)
  then have "manifestInvariant w options (length urls) ([] @ urls)
     (foldl (processJob pf w options) st0 (zip [length ([]::jsstring list)..<length ([]::jsstring list) + length urls] urls))"
    by (rule manifestInvariant_fold) (use l in simp)
  then show ?thesis by (simp add: packageRun_def st0_def)
qed

section \<open>The calls of a run and the reply\<close>

lemma processJob_failed: "failure st = Some m \<Longrightarrow> processJob pf w options st job = st"
  by (simp add: processJob_def)

lemma processJob_events:
  assumes "failure st = None" and "failure (processJob pf w options st (k, u)) = None"
  shows "events (processJob pf w options st (k, u)) = events st @ jobFetches w options (k, u)"
proof (cases "extractArticleWithAssets w k u")
  case (ExtractError err)
  with assms show ?thesis
    by (cases "safeArticleFolder pf u None k")
       (simp_all add: processJob_def failedJob_eq jobFetches_def)
next
  case (Extracted r assets)
  define d where "d = downloadAssets pf w k u (assetItems (pickAssets assets options)) (assetBytes st)"
  show ?thesis
  proof (cases "safeArticleFolder pf u (title r) k")
    case None
    with assms Extracted show ?thesis by (simp add: processJob_def extractedJob_eq)
  next
    case (Some f)
    show ?thesis
    proof (cases "thrown d")
      case thrown: (Some m)
      with assms Extracted Some show ?thesis
        by (simp add: processJob_def extractedJob_eq(2) [OF Some] d_def)
    next
      case clean: None
      then have "fetched d = fetchLog u (assetItems (pickAssets assets options))"
        unfolding d_def by (rule downloadAssets_fetched)
      with assms Extracted Some clean show ?thesis
        by (simp add: processJob_def extractedJob_eq(3) [OF Some] d_def [symmetric]
            jobFetches_def)
    qed
  qed
qed

lemma zip_upt_snoc:
  "zip [0..<length (seen @ [u])] (seen @ [u]) = zip [0..<length seen] seen @ [(length seen, u)]"
  by simp

lemma eventsInvariant_step:
  assumes "eventsInvariant w options base seen st"
  shows "eventsInvariant w options base (seen @ [u]) (processJob pf w options st (length seen, u))"
proof (cases "failure st")
  case (Some m)
  then show ?thesis by (simp add: processJob_failed eventsInvariant_def)
next
  case None
  show ?thesis
  proof (cases "failure (processJob pf w options st (length seen, u))")
    case (Some m)
    then show ?thesis by (simp add: eventsInvariant_def)
  next
    case ok: None
    have "events (processJob pf w options st (length seen, u))
            = events st @ jobFetches w options (length seen, u)"
      using None ok by (rule processJob_events)
    with assms None show ?thesis
      unfolding eventsInvariant_def zip_upt_snoc by simp
  qed
qed

lemma jobs_fold:
  assumes step: "\<And>seen st u. P seen st \<Longrightarrow> length seen < bound \<Longrightarrow>
                   P (seen @ [u]) (processJob pf w options st (length seen, u))"
  shows "P seen st \<Longrightarrow> length seen + length us \<le> bound \<Longrightarrow>
   P (seen @ us)
     (foldl (processJob pf w options) st (zip [length seen..<length seen + length us] us))"
proof (induction us arbitrary: seen st)
  case Nil
  then show ?case by simp
next
  case (Cons u us)
  have "[length seen..<length seen + length (u # us)]
          = length seen # [Suc (length seen)..<length seen + length (u # us)]"
    by (rule upt_conv_Cons) simp
  then have z: "zip [length seen..<length seen + length (u # us)] (u # us)
             = (length seen, u) # zip [length (seen @ [u])..<length (seen @ [u]) + length us] us"
    by simp
  have "P (seen @ [u]) (processJob pf w options st (length seen, u))"
    using Cons.prems by (intro step) simp_all
  then have "P ((seen @ [u]) @ us)
     (foldl (processJob pf w options) (processJob pf w options st (length seen, u))
        (zip [length (seen @ [u])..<length (seen @ [u]) + length us] us))"
    using Cons.prems by (intro Cons.IH) simp_all
  then show ?case unfolding z by simp
qed

lemma packageRun_events:
  assumes "failure (packageRun pf w urls options) = None"
  shows "events (packageRun pf w urls options) = callLog w options urls"
proof -
  define st0 :: runState where "st0 = \<lparr>tarEntries = [],
        runManifest = \<lparr>total = length urls, success = 0, failed = 0, results = []\<rparr>,
        assetBytes = 0, events = map ExtractCall urls, failure = None\<rparr>"
  have "eventsInvariant w options (map ExtractCall urls) [] st0"
    by (simp add: eventsInvariant_def st0_def)
  then have "eventsInvariant w options (map ExtractCall urls) ([] @ urls)
     (foldl (processJob pf w options) st0
        (zip [length ([]::jsstring list)..<length ([]::jsstring list) + length urls] urls))"
    by (rule jobs_fold [where P = "eventsInvariant w options (map ExtractCall urls)"
          and bound = "length urls", rotated])
       (simp_all add: eventsInvariant_step)
  then have "eventsInvariant w options (map ExtractCall urls) urls (packageRun pf w urls options)"
    by (simp add: packageRun_def st0_def)
  with assms show ?thesis by (simp add: eventsInvariant_def callLog_def)
qed

lemma packageRun_bytes: "bytesInvariant (packageRun pf w urls options)"
  unfolding packageRun_def
proof (rule foldl_invariant [where P = bytesInvariant])
  show "bytesInvariant \<lparr>tarEntries = [],
        runManifest = \<lparr>total = length urls, success = 0, failed = 0, results = []\<rparr>,
        assetBytes = 0, events = map ExtractCall urls, failure = None\<rparr>"
    by (simp add: bytesInvariant_def assetEntryBytes_def)
next
  fix st job
  assume "bytesInvariant st"
  then show "bytesInvariant (processJob pf w options st job)" by (rule processJob_bytes)
qed

lemma packageRun_kindFree:
  assumes "\<not> kindEnabled options kind"
  shows "kindFree kind (packageRun pf w urls options)"
  unfolding packageRun_def
proof (rule foldl_invariant [where P = "kindFree kind"])
  have "fetchesOf kind (map ExtractCall urls) = []"
    by (induction urls) (simp_all add: fetchesOf_def)
  then show "kindFree kind \<lparr>tarEntries = [],
        runManifest = \<lparr>total = length urls, success = 0, failed = 0, results = []\<rparr>,
        assetBytes = 0, events = map ExtractCall urls, failure = None\<rparr>"
    by (simp add: kindFree_def entriesUnder_def)
next
  fix st job
  assume "kindFree kind st"
  with assms show "kindFree kind (processJob pf w options st job)"
    by (rule processJob_kindFree)
qed

text \<open>The reply to a POST request in terms of the run.\<close>

lemma handler_post:
  assumes post: "httpMethod req = js ''POST''" and b: "body req = Some b"
    and ok: "\<not> rejectedList pf (requestUrls b)"
  shows "handler pf w req =
     (case failure (packageRun pf w (requestUrls b) (requestOptions b)) of
        Some message \<Rightarrow>
          \<lparr>status = 400,
           sent = JsonError (orElse message [0x65E0, 0x6548, 0x7684, 0x8BF7, 0x6C42]),
           calls = events (packageRun pf w (requestUrls b) (requestOptions b))\<rparr>
      | None \<Rightarrow>
          \<lparr>status = 200,
           sent = Gzip (createTarGz pf (nowSeconds w)
                    (archived pf w (requestUrls b) (requestOptions b))),
           calls = events (packageRun pf w (requestUrls b) (requestOptions b))\<rparr>)"
proof -
  have np: "js ''POST'' \<noteq> js ''OPTIONS''" by (simp add: js_def)
  from ok have ne: "requestUrls b \<noteq> []" and le: "\<not> 20 < length (requestUrls b)"
    and all: "\<not> list_ex (\<lambda>u. case newURL pf u of
                        None \<Rightarrow> True
                      | Some p \<Rightarrow> protocol p \<noteq> js ''http:'' \<and> protocol p \<noteq> js ''https:'')
                 (requestUrls b)"
    by (simp_all add: rejectedList_def)
  have "find (\<lambda>u. \<not> validUrl pf u) (requestUrls b) = None"
    using all unfolding find_None_iff list_ex_iff validUrl_def
    by (auto split: option.splits)
  then show ?thesis
    using post b np ne le
    by (cases "failure (packageRun pf w (requestUrls b) (requestOptions b))")
       (simp_all add: handler_def Let_def MAX_URLS_def archived_def)
qed

lemma handler_rejected:
  assumes post: "httpMethod req = js ''POST''" and b: "body req = Some b"
    and rej: "rejectedList pf (requestUrls b)"
  shows "status (handler pf w req) = 400" and "calls (handler pf w req) = []"
proof -
  have np: "js ''POST'' \<noteq> js ''OPTIONS''" by (simp add: js_def)
  consider (empty) "requestUrls b = []"
    | (many) "requestUrls b \<noteq> []" "20 < length (requestUrls b)"
    | (bad) "requestUrls b \<noteq> []" "\<not> 20 < length (requestUrls b)"
        "list_ex (\<lambda>u. case newURL pf u of
                        None \<Rightarrow> True
                      | Some p \<Rightarrow> protocol p \<noteq> js ''http:'' \<and> protocol p \<noteq> js ''https:'')
           (requestUrls b)"
    using rej unfolding rejectedList_def by blast
  then have "status (handler pf w req) = 400 \<and> calls (handler pf w req) = []"
  proof cases
    case empty
    then show ?thesis using post b np by (simp add: handler_def Let_def)
  next
    case many
    then show ?thesis using post b np by (simp add: handler_def Let_def MAX_URLS_def)
  next
    case bad
    then obtain u where "u \<in> set (requestUrls b)" and "\<not> validUrl pf u"
      unfolding list_ex_iff validUrl_def by (auto split: option.splits)
    then obtain v where "find (\<lambda>u. \<not> validUrl pf u) (requestUrls b) = Some v"
      using find_invalid by blast
    with bad show ?thesis using post b np by (simp add: handler_def Let_def MAX_URLS_def)
  qed
  then show "status (handler pf w req) = 400" and "calls (handler pf w req) = []" by simp_all
qed

lemma handler_accepted:
  assumes post: "httpMethod req = js ''POST''" and b: "body req = Some b"
    and ok: "status (handler pf w req) = 200"
  shows "\<not> rejectedList pf (requestUrls b)"
    and "failure (packageRun pf w (requestUrls b) (requestOptions b)) = None"
    and "sent (handler pf w req) = Gzip (createTarGz pf (nowSeconds w)
                    (archived pf w (requestUrls b) (requestOptions b)))"
    and "calls (handler pf w req) = events (packageRun pf w (requestUrls b) (requestOptions b))"
proof -
  show v: "\<not> rejectedList pf (requestUrls b)"
  proof
    assume "rejectedList pf (requestUrls b)"
    with post b have "status (handler pf w req) = 400" by (rule handler_rejected(1))
    with ok show False by simp
  qed
  note h = handler_post [OF post b v, of w]
  show f: "failure (packageRun pf w (requestUrls b) (requestOptions b)) = None"
  proof (cases "failure (packageRun pf w (requestUrls b) (requestOptions b))")
    case None
    then show ?thesis .
  next
    case (Some m)
    with h have "status (handler pf w req) = 400" by simp
    with ok show ?thesis by simp
  qed
  show "sent (handler pf w req) = Gzip (createTarGz pf (nowSeconds w)
                    (archived pf w (requestUrls b) (requestOptions b)))"
    using h f by simp
  show "calls (handler pf w req) = events (packageRun pf w (requestUrls b) (requestOptions b))"
    using h f by simp
qed

lemma handler_calls:
  "calls (handler pf w req) = []
   \<or> (\<exists>b. body req = Some b
         \<and> calls (handler pf w req)
             = events (packageRun pf w (requestUrls b) (requestOptions b)))"
proof (cases "httpMethod req = js ''POST''")
  case False
  then show ?thesis by (simp add: handler_def)
next
  case True
  show ?thesis
  proof (cases "body req")
    case None
    have np: "js ''POST'' \<noteq> js ''OPTIONS''" by (simp add: js_def)
    from None True np show ?thesis
      by (simp add: handler_def Let_def requestUrls_def emptyBody_def)
  next
    case (Some b)
    show ?thesis
    proof (cases "rejectedList pf (requestUrls b)")
      case True
      with \<open>httpMethod req = js ''POST''\<close> Some show ?thesis
        using handler_rejected(2) by blast
    next
      case False
      from handler_post [OF \<open>httpMethod req = js ''POST''\<close> Some False, of w] Some
      show ?thesis
        by (cases "failure (packageRun pf w (requestUrls b) (requestOptions b))") simp_all
    qed
  qed
qed

section \<open>Small pools and the stand-in platform\<close>

text \<open>A pool of at most two items whose calls complete in the order of the list.\<close>

lemma workers_none:
  "(startNext referer [] ^^ max 1 ASSET_CONCURRENCY) (poolStart [] b)
     = (poolStart [] b)\<lparr>cursor := 6\<rparr>"
  by (simp add: ASSET_CONCURRENCY_def eval_nat_numeral startNext_def poolStart_def)

lemma workers_one:
  "(startNext referer [(k0, u0)] ^^ max 1 ASSET_CONCURRENCY) (poolStart [(k0, u0)] b)
     = (poolStart [(k0, u0)] b)\<lparr>cursor := 6, inFlight := [0],
          fetched := [FetchCall k0 u0 referer]\<rparr>"
  by (simp add: ASSET_CONCURRENCY_def eval_nat_numeral startNext_def poolStart_def)

lemma workers_two:
  "(startNext referer [(k0, u0), (k1, u1)] ^^ max 1 ASSET_CONCURRENCY)
       (poolStart [(k0, u0), (k1, u1)] b)
     = (poolStart [(k0, u0), (k1, u1)] b)\<lparr>cursor := 6, inFlight := [0, 1],
          fetched := [FetchCall k0 u0 referer, FetchCall k1 u1 referer]\<rparr>"
  by (simp add: ASSET_CONCURRENCY_def eval_nat_numeral startNext_def poolStart_def)

lemma pool_none:
  "downloadAssets pf w job referer [] b = (poolStart [] b)\<lparr>cursor := 6\<rparr>"
  unfolding downloadAssets_eq workers_none
  by (subst downloadRun.simps) (simp add: poolStart_def)

lemma pool_two:
  assumes r: "completion w job = (\<lambda>k. k)"
    and d0: "downloadAsset pf (fetch w job 0 u0 referer) u0 k0 {} b = (Inr a0, used0, b0)"
    and d1: "downloadAsset pf (fetch w job 1 u1 referer) u1 k1 used0 b0 = (Inr a1, used1, b1)"
  shows "downloadAssets pf w job referer [(k0, u0), (k1, u1)] b
     = \<lparr>downloaded = [a0, a1], usedPaths = used1, totalBytes = b1,
        fetched = [FetchCall k0 u0 referer, FetchCall k1 u1 referer], thrown = None,
        cursor = 8, inFlight = []\<rparr>"
proof -
  have d1': "downloadAsset pf (fetch w job (Suc 0) u1 referer) u1 k1 used0 b0 = (Inr a1, used1, b1)"
    using d1 by simp
  show ?thesis
    unfolding downloadAssets_eq workers_two r
    apply (subst downloadRun.simps)
    apply (simp add: poolStart_def completeNext_def startNext_def d0)
    apply (subst downloadRun.simps)
    apply (simp add: completeNext_def startNext_def d1')
    apply (subst downloadRun.simps)
    apply simp
    done
qed

lemma pool_one:
  assumes d0: "downloadAsset pf (fetch w job 0 u0 referer) u0 k0 {} b = (Inr a0, used0, b0)"
  shows "downloadAssets pf w job referer [(k0, u0)] b
     = \<lparr>downloaded = [a0], usedPaths = used0, totalBytes = b0,
        fetched = [FetchCall k0 u0 referer], thrown = None,
        cursor = 7, inFlight = []\<rparr>"
  unfolding downloadAssets_eq workers_one
  apply (subst downloadRun.simps)
  apply (simp add: poolStart_def completeNext_def startNext_def d0)
  apply (subst downloadRun.simps)
  apply simp
  done


text \<open>The stand-in platform and world at the assets of the first article.\<close>

lemmas eval_strings = js_def sanitizeSegment_def trim_def isWhiteSpace_def unsafeChars_def
  orElse_def Let_def stubPlatform_def stubURL_def sanitizePath_def shortHash_def zeroDigest_def
  parseFilenameFromContentDisposition_def beforeExtension_def

lemma zeros10: "replicate 10 x = [x, x, x, x, x, x, x, x, x, x]"
  by (simp add: eval_nat_numeral)

lemma resolve_a:
  "resolveFilename stubPlatform (js ''http://h/a.png'') Images [] None = js ''a.png''"
  by (simp add: resolveFilename_def eval_strings)

lemma build_a:
  "buildRelativeAssetPath stubPlatform (js ''http://h/a.png'') Images (js ''a.png'')
     = Some (js ''assets/images/h/a.png'')"
  by (simp add: buildRelativeAssetPath_def eval_strings)

lemma resolve_b:
  "resolveFilename stubPlatform (js ''http://h/b.pdf'') Files [] None = js ''b.pdf''"
  by (simp add: resolveFilename_def eval_strings)

lemma build_b:
  "buildRelativeAssetPath stubPlatform (js ''http://h/b.pdf'') Files (js ''b.pdf'')
     = Some (js ''assets/files/h/b.pdf'')"
  by (simp add: buildRelativeAssetPath_def eval_strings)

lemma resolve_ax:
  "resolveFilename stubPlatform (js ''http://h/a.png?x'') Images [] None
     = js ''a__0000000000.png''"
  by (simp add: resolveFilename_def eval_strings zeros10)

lemma build_ax:
  "buildRelativeAssetPath stubPlatform (js ''http://h/a.png?x'') Images (js ''a__0000000000.png'')
     = Some (js ''assets/images/h/a__0000000000.png'')"
  by (simp add: buildRelativeAssetPath_def eval_strings)


lemma download_a:
  "downloadAsset stubPlatform
     (Responded \<lparr>ok = True, contentType = None, contentDisposition = None,
                 arrayBuffer = Inr [1, 2, 3]\<rparr>)
     (js ''http://h/a.png'') Images {} 0
   = (Inr (Some \<lparr>originalUrl = js ''http://h/a.png'',
                  relativePath = js ''assets/images/h/a.png'', assetContent = [1, 2, 3]\<rparr>),
      {js ''assets/images/h/a.png''}, 3)"
  unfolding downloadAsset_def
  by (simp add: resolve_a build_a dedupePath_def acceptBytes_def MAX_ASSET_BYTES_def
      MAX_TOTAL_ASSET_BYTES_def)

lemma download_b:
  "downloadAsset stubPlatform
     (Responded \<lparr>ok = True, contentType = None, contentDisposition = None,
                 arrayBuffer = Inr [1, 2, 3]\<rparr>)
     (js ''http://h/b.pdf'') Files {js ''assets/images/h/a.png''} 3
   = (Inr (Some \<lparr>originalUrl = js ''http://h/b.pdf'',
                  relativePath = js ''assets/files/h/b.pdf'', assetContent = [1, 2, 3]\<rparr>),
      {js ''assets/files/h/b.pdf'', js ''assets/images/h/a.png''}, 6)"
proof -
  have "js ''assets/files/h/b.pdf'' \<noteq> js ''assets/images/h/a.png''" by (simp add: js_def)
  moreover have "\<not> startsWith (toLowerCase stubPlatform []) (js ''text/html'')"
    by (simp add: stubPlatform_def startsWith_def js_def)
  ultimately show ?thesis
    unfolding downloadAsset_def
    by (simp add: resolve_b build_b dedupePath_def acceptBytes_def MAX_ASSET_BYTES_def
        MAX_TOTAL_ASSET_BYTES_def)
qed

lemma download_ax:
  "downloadAsset stubPlatform
     (Responded \<lparr>ok = True, contentType = None, contentDisposition = None,
                 arrayBuffer = Inr [1, 2, 3]\<rparr>)
     (js ''http://h/a.png?x'') Images {js ''assets/images/h/a.png''} 3
   = (Inr (Some \<lparr>originalUrl = js ''http://h/a.png?x'',
                  relativePath = js ''assets/images/h/a__0000000000.png'',
                  assetContent = [1, 2, 3]\<rparr>),
      {js ''assets/images/h/a__0000000000.png'', js ''assets/images/h/a.png''}, 6)"
proof -
  have "js ''assets/images/h/a__0000000000.png'' \<noteq> js ''assets/images/h/a.png''"
    by (simp add: js_def)
  then show ?thesis
    unfolding downloadAsset_def
    by (simp add: resolve_ax build_ax dedupePath_def acceptBytes_def MAX_ASSET_BYTES_def
        MAX_TOTAL_ASSET_BYTES_def)
qed

lemma folder_T:
  "safeArticleFolder stubPlatform u (Some (js ''T'')) 0 = Some (js ''001_T'')"
proof -
  have "toStringRadix 10 1 = [0x31]"
    by (subst toStringRadix.simps) (simp add: digitChar_def)
  moreover have "replicate 2 (0x30::jschar) = [0x30, 0x30]" by (simp add: eval_nat_numeral)
  ultimately show ?thesis
    by (simp add: safeArticleFolder_def padStart_def eval_strings)
qed

lemma markdown_T:
  "buildArticleMarkdown \<lparr>title = Some (js ''T''), articleContent = c, author = None,
       date = None, articleUrl = js ''http://h/x''\<rparr>
     = trim (js ''# T'' @ [0x0A] @ js ''**'' @ [0x6765, 0x6E90] @ js ''**: http://h/x''
          @ [0x0A, 0x0A] @ js ''---'' @ [0x0A, 0x0A] @ c) @ [0x0A]"
  by (simp add: buildArticleMarkdown_def js_def)

lemma pool_overlap:
  "downloadAssets stubPlatform overlapWorld 0 (js ''http://h/x'')
     [(Images, js ''http://h/a.png''), (Images, js ''http://h/a.png?x'')] 0
   = \<lparr>downloaded =
        [Some \<lparr>originalUrl = js ''http://h/a.png'',
                relativePath = js ''assets/images/h/a.png'', assetContent = [1, 2, 3]\<rparr>,
         Some \<lparr>originalUrl = js ''http://h/a.png?x'',
                relativePath = js ''assets/images/h/a__0000000000.png'',
                assetContent = [1, 2, 3]\<rparr>],
      usedPaths = {js ''assets/images/h/a__0000000000.png'', js ''assets/images/h/a.png''},
      totalBytes = 6,
      fetched = [FetchCall Images (js ''http://h/a.png'') (js ''http://h/x''),
                 FetchCall Images (js ''http://h/a.png?x'') (js ''http://h/x'')],
      thrown = None, cursor = 8, inFlight = []\<rparr>"
proof (rule pool_two)
  show "completion overlapWorld 0 = (\<lambda>k. k)" by (simp add: overlapWorld_def)
  show "downloadAsset stubPlatform (fetch overlapWorld 0 0 (js ''http://h/a.png'') (js ''http://h/x''))
     (js ''http://h/a.png'') Images {} 0
   = (Inr (Some \<lparr>originalUrl = js ''http://h/a.png'',
                  relativePath = js ''assets/images/h/a.png'', assetContent = [1, 2, 3]\<rparr>),
      {js ''assets/images/h/a.png''}, 3)"
    using download_a by (simp add: overlapWorld_def)
  show "downloadAsset stubPlatform (fetch overlapWorld 0 1 (js ''http://h/a.png?x'') (js ''http://h/x''))
     (js ''http://h/a.png?x'') Images {js ''assets/images/h/a.png''} 3
   = (Inr (Some \<lparr>originalUrl = js ''http://h/a.png?x'',
                  relativePath = js ''assets/images/h/a__0000000000.png'',
                  assetContent = [1, 2, 3]\<rparr>),
      {js ''assets/images/h/a__0000000000.png'', js ''assets/images/h/a.png''}, 6)"
    using download_ax by (simp add: overlapWorld_def)
qed

section \<open>One picture referred to twice\<close>

lemma packageRun_one:
  "packageRun pf w [u] options =
     processJob pf w options
       \<lparr>tarEntries = [],
        runManifest = \<lparr>total = 1, success = 0, failed = 0, results = []\<rparr>,
        assetBytes = 0, events = [ExtractCall u], failure = None\<rparr> (0, u)"
  by (simp add: packageRun_def)

lemma rewrite_overlap:
  "rewriteMarkdown
     (trim (js ''# T'' @ [0x0A] @ js ''**'' @ [0x6765, 0x6E90] @ js ''**: http://h/x''
          @ [0x0A, 0x0A] @ js ''---'' @ [0x0A, 0x0A]
          @ js ''![](http://h/a.png) ![](http://h/a.png?x)'') @ [0x0A])
     [\<lparr>originalUrl = js ''http://h/a.png'',
       relativePath = js ''assets/images/h/a.png'', assetContent = [1, 2, 3]\<rparr>,
      \<lparr>originalUrl = js ''http://h/a.png?x'',
       relativePath = js ''assets/images/h/a__0000000000.png'', assetContent = [1, 2, 3]\<rparr>]
   = js ''# T'' @ [0x0A] @ js ''**'' @ [0x6765, 0x6E90] @ js ''**: http://h/x''
          @ [0x0A, 0x0A] @ js ''---'' @ [0x0A, 0x0A]
          @ js ''![](assets/images/h/a.png) ![](assets/images/h/a.png?x)'' @ [0x0A]"
  by (simp add: rewriteMarkdown_def replaceAll_def js_def trim_def isWhiteSpace_def)


lemma run_overlap:
  "packageRun stubPlatform overlapWorld [js ''http://h/x'']
     \<lparr>downloadImages = True, downloadFiles = True\<rparr>
   = \<lparr>tarEntries =
        [TarFile (js ''001_T/assets/images/h/a.png'') [1, 2, 3] None None,
         TarFile (js ''001_T/assets/images/h/a__0000000000.png'') [1, 2, 3] None None,
         TarFile (js ''001_T/index.md'')
           (utf8Encode (js ''# T'' @ [0x0A] @ js ''**'' @ [0x6765, 0x6E90]
              @ js ''**: http://h/x'' @ [0x0A, 0x0A] @ js ''---'' @ [0x0A, 0x0A]
              @ js ''![](assets/images/h/a.png) ![](assets/images/h/a.png?x)'' @ [0x0A]))
           None None],
      runManifest = \<lparr>total = 1, success = 1, failed = 0,
        results = [JobOk (js ''http://h/x'') (js ''001_T'') 2 0 2]\<rparr>,
      assetBytes = 6,
      events = [ExtractCall (js ''http://h/x''),
                FetchCall Images (js ''http://h/a.png'') (js ''http://h/x''),
                FetchCall Images (js ''http://h/a.png?x'') (js ''http://h/x'')],
      failure = None\<rparr>"
proof -
  define r where "r = \<lparr>title = Some (js ''T''),
              articleContent = js ''![](http://h/a.png) ![](http://h/a.png?x)'',
              author = None, date = None, articleUrl = js ''http://h/x''\<rparr>"
  define assets where "assets = \<lparr>images = [js ''http://h/a.png'', js ''http://h/a.png?x''],
     files = []\<rparr>"
  define options where "options = \<lparr>downloadImages = True, downloadFiles = True\<rparr>"
  define st0 where "st0 = \<lparr>tarEntries = [],
        runManifest = \<lparr>total = 1, success = 0, failed = 0, results = []\<rparr>,
        assetBytes = 0, events = [ExtractCall (js ''http://h/x'')], failure = None\<rparr>"
  have ex: "extractArticleWithAssets overlapWorld 0 (js ''http://h/x'') = Extracted r assets"
    by (simp add: overlapWorld_def r_def assets_def)
  have items: "assetItems (pickAssets assets options)
      = [(Images, js ''http://h/a.png''), (Images, js ''http://h/a.png?x'')]"
    by (simp add: assetItems_def pickAssets_def assets_def options_def)
  have folder: "safeArticleFolder stubPlatform (js ''http://h/x'') (title r) 0 = Some (js ''001_T'')"
    unfolding r_def using folder_T by simp
  have b0: "assetBytes st0 = 0" by (simp add: st0_def)
  note pool = pool_overlap
  have clean: "thrown (downloadAssets stubPlatform overlapWorld 0 (js ''http://h/x'')
      (assetItems (pickAssets assets options)) (assetBytes st0)) = None"
    unfolding items b0 pool by simp
  have md: "buildArticleMarkdown r
     = trim (js ''# T'' @ [0x0A] @ js ''**'' @ [0x6765, 0x6E90] @ js ''**: http://h/x''
          @ [0x0A, 0x0A] @ js ''---'' @ [0x0A, 0x0A]
          @ js ''![](http://h/a.png) ![](http://h/a.png?x)'') @ [0x0A]"
    unfolding r_def by (rule markdown_T)
  have rw: "rewriteMarkdown (buildArticleMarkdown r)
     [\<lparr>originalUrl = js ''http://h/a.png'',
       relativePath = js ''assets/images/h/a.png'', assetContent = [1, 2, 3]\<rparr>,
      \<lparr>originalUrl = js ''http://h/a.png?x'',
       relativePath = js ''assets/images/h/a__0000000000.png'', assetContent = [1, 2, 3]\<rparr>]
   = js ''# T'' @ [0x0A] @ js ''**'' @ [0x6765, 0x6E90] @ js ''**: http://h/x''
          @ [0x0A, 0x0A] @ js ''---'' @ [0x0A, 0x0A]
          @ js ''![](assets/images/h/a.png) ![](assets/images/h/a.png?x)'' @ [0x0A]"
    unfolding md by (rule rewrite_overlap)
  have p: "js ''001_T'' @ js ''/'' @ js ''assets/images/h/a.png'' = js ''001_T/assets/images/h/a.png''"
    "js ''001_T'' @ js ''/'' @ js ''assets/images/h/a__0000000000.png''
       = js ''001_T/assets/images/h/a__0000000000.png''"
    "js ''001_T'' @ js ''/index.md'' = js ''001_T/index.md''"
    by (simp_all add: js_def)
  have "processJob stubPlatform overlapWorld options st0 (0, js ''http://h/x'')
      = extractedJob stubPlatform overlapWorld options st0 0 (js ''http://h/x'') r assets"
    by (simp add: processJob_def ex st0_def)
  also have "\<dots> = \<lparr>tarEntries =
        [TarFile (js ''001_T/assets/images/h/a.png'') [1, 2, 3] None None,
         TarFile (js ''001_T/assets/images/h/a__0000000000.png'') [1, 2, 3] None None,
         TarFile (js ''001_T/index.md'')
           (utf8Encode (js ''# T'' @ [0x0A] @ js ''**'' @ [0x6765, 0x6E90]
              @ js ''**: http://h/x'' @ [0x0A, 0x0A] @ js ''---'' @ [0x0A, 0x0A]
              @ js ''![](assets/images/h/a.png) ![](assets/images/h/a.png?x)'' @ [0x0A]))
           None None],
      runManifest = \<lparr>total = 1, success = 1, failed = 0,
        results = [JobOk (js ''http://h/x'') (js ''001_T'') 2 0 2]\<rparr>,
      assetBytes = 6,
      events = [ExtractCall (js ''http://h/x''),
                FetchCall Images (js ''http://h/a.png'') (js ''http://h/x''),
                FetchCall Images (js ''http://h/a.png?x'') (js ''http://h/x'')],
      failure = None\<rparr>"
    unfolding extractedJob_eq(3) [OF folder clean] items b0 pool
    by (simp add: okAssets_def assetEntry_def rw p st0_def pickAssets_def
        assets_def options_def)
  finally show ?thesis
    unfolding packageRun_one st0_def options_def .
qed

section \<open>The two articles of the stand-in world\<close>

text \<open>The stand-in world at its two articles.\<close>

lemma packageRun_two:
  "packageRun pf w [u, v] options =
     processJob pf w options
       (processJob pf w options
          \<lparr>tarEntries = [],
           runManifest = \<lparr>total = 2, success = 0, failed = 0, results = []\<rparr>,
           assetBytes = 0, events = [ExtractCall u, ExtractCall v], failure = None\<rparr> (0, u))
       (Suc 0, v)"
  by (simp add: packageRun_def numeral_2_eq_2)

lemma pool_stub:
  "downloadAssets stubPlatform stubWorld 0 (js ''http://h/x'')
     [(Images, js ''http://h/a.png''), (Files, js ''http://h/b.pdf'')] 0
   = \<lparr>downloaded =
        [Some \<lparr>originalUrl = js ''http://h/a.png'',
                relativePath = js ''assets/images/h/a.png'', assetContent = [1, 2, 3]\<rparr>,
         Some \<lparr>originalUrl = js ''http://h/b.pdf'',
                relativePath = js ''assets/files/h/b.pdf'', assetContent = [1, 2, 3]\<rparr>],
      usedPaths = {js ''assets/files/h/b.pdf'', js ''assets/images/h/a.png''},
      totalBytes = 6,
      fetched = [FetchCall Images (js ''http://h/a.png'') (js ''http://h/x''),
                 FetchCall Files (js ''http://h/b.pdf'') (js ''http://h/x'')],
      thrown = None, cursor = 8, inFlight = []\<rparr>"
proof (rule pool_two)
  show "completion stubWorld 0 = (\<lambda>k. k)" by (simp add: stubWorld_def)
  show "downloadAsset stubPlatform (fetch stubWorld 0 0 (js ''http://h/a.png'') (js ''http://h/x''))
     (js ''http://h/a.png'') Images {} 0
   = (Inr (Some \<lparr>originalUrl = js ''http://h/a.png'',
                  relativePath = js ''assets/images/h/a.png'', assetContent = [1, 2, 3]\<rparr>),
      {js ''assets/images/h/a.png''}, 3)"
    using download_a by (simp add: stubWorld_def)
  show "downloadAsset stubPlatform (fetch stubWorld 0 1 (js ''http://h/b.pdf'') (js ''http://h/x''))
     (js ''http://h/b.pdf'') Files {js ''assets/images/h/a.png''} 3
   = (Inr (Some \<lparr>originalUrl = js ''http://h/b.pdf'',
                  relativePath = js ''assets/files/h/b.pdf'', assetContent = [1, 2, 3]\<rparr>),
      {js ''assets/files/h/b.pdf'', js ''assets/images/h/a.png''}, 6)"
    using download_b by (simp add: stubWorld_def)
qed

lemma pool_stub_images:
  "downloadAssets stubPlatform stubWorld 0 (js ''http://h/x'')
     [(Images, js ''http://h/a.png'')] 0
   = \<lparr>downloaded =
        [Some \<lparr>originalUrl = js ''http://h/a.png'',
                relativePath = js ''assets/images/h/a.png'', assetContent = [1, 2, 3]\<rparr>],
      usedPaths = {js ''assets/images/h/a.png''},
      totalBytes = 3,
      fetched = [FetchCall Images (js ''http://h/a.png'') (js ''http://h/x'')],
      thrown = None, cursor = 7, inFlight = []\<rparr>"
proof (rule pool_one)
  show "downloadAsset stubPlatform (fetch stubWorld 0 0 (js ''http://h/a.png'') (js ''http://h/x''))
     (js ''http://h/a.png'') Images {} 0
   = (Inr (Some \<lparr>originalUrl = js ''http://h/a.png'',
                  relativePath = js ''assets/images/h/a.png'', assetContent = [1, 2, 3]\<rparr>),
      {js ''assets/images/h/a.png''}, 3)"
    using download_a by (simp add: stubWorld_def)
qed

lemma rewrite_stub:
  "rewriteMarkdown
     (trim (js ''# T'' @ [0x0A] @ js ''**'' @ [0x6765, 0x6E90] @ js ''**: http://h/x''
          @ [0x0A, 0x0A] @ js ''---'' @ [0x0A, 0x0A] @ js ''see http://h/a.png'') @ [0x0A])
     (\<lparr>originalUrl = js ''http://h/a.png'',
       relativePath = js ''assets/images/h/a.png'', assetContent = [1, 2, 3]\<rparr> # rest)
   = rewriteMarkdown
       (js ''# T'' @ [0x0A] @ js ''**'' @ [0x6765, 0x6E90] @ js ''**: http://h/x''
          @ [0x0A, 0x0A] @ js ''---'' @ [0x0A, 0x0A] @ js ''see assets/images/h/a.png'' @ [0x0A])
       rest"
  by (simp add: rewriteMarkdown_def replaceAll_def js_def trim_def isWhiteSpace_def)

lemma rewrite_stub_pdf:
  "rewriteMarkdown
       (js ''# T'' @ [0x0A] @ js ''**'' @ [0x6765, 0x6E90] @ js ''**: http://h/x''
          @ [0x0A, 0x0A] @ js ''---'' @ [0x0A, 0x0A] @ js ''see assets/images/h/a.png'' @ [0x0A])
       [\<lparr>originalUrl = js ''http://h/b.pdf'',
         relativePath = js ''assets/files/h/b.pdf'', assetContent = [1, 2, 3]\<rparr>]
   = js ''# T'' @ [0x0A] @ js ''**'' @ [0x6765, 0x6E90] @ js ''**: http://h/x''
          @ [0x0A, 0x0A] @ js ''---'' @ [0x0A, 0x0A] @ js ''see assets/images/h/a.png'' @ [0x0A]"
  by (simp add: rewriteMarkdown_def replaceAll_def js_def)

lemma job_stub:
  assumes f: "failure st = None" and b: "assetBytes st = 0"
  shows "processJob stubPlatform stubWorld \<lparr>downloadImages = True, downloadFiles = True\<rparr> st
           (0, js ''http://h/x'')
     = st\<lparr>assetBytes := 6,
          events := events st
            @ [FetchCall Images (js ''http://h/a.png'') (js ''http://h/x''),
               FetchCall Files (js ''http://h/b.pdf'') (js ''http://h/x'')],
          tarEntries := tarEntries st
            @ [TarFile (js ''001_T/assets/images/h/a.png'') [1, 2, 3] None None,
               TarFile (js ''001_T/assets/files/h/b.pdf'') [1, 2, 3] None None,
               TarFile (js ''001_T/index.md'') stubIndex None None],
          runManifest := (runManifest st)
            \<lparr>success := success (runManifest st) + 1,
             results := results (runManifest st)
               @ [JobOk (js ''http://h/x'') (js ''001_T'') 1 1 2]\<rparr>\<rparr>"
    (is "?job = ?out")
proof -
  define r where "r = \<lparr>title = Some (js ''T''), articleContent = js ''see http://h/a.png'',
                   author = None, date = None, articleUrl = js ''http://h/x''\<rparr>"
  define assets where "assets = \<lparr>images = [js ''http://h/a.png''], files = [js ''http://h/b.pdf'']\<rparr>"
  define options where "options = \<lparr>downloadImages = True, downloadFiles = True\<rparr>"
  have ex: "extractArticleWithAssets stubWorld 0 (js ''http://h/x'') = Extracted r assets"
    by (simp add: stubWorld_def r_def assets_def)
  have items: "assetItems (pickAssets assets options)
      = [(Images, js ''http://h/a.png''), (Files, js ''http://h/b.pdf'')]"
    by (simp add: assetItems_def pickAssets_def assets_def options_def)
  have folder: "safeArticleFolder stubPlatform (js ''http://h/x'') (title r) 0 = Some (js ''001_T'')"
    unfolding r_def using folder_T by simp
  have clean: "thrown (downloadAssets stubPlatform stubWorld 0 (js ''http://h/x'')
      (assetItems (pickAssets assets options)) (assetBytes st)) = None"
    unfolding items b pool_stub by simp
  have md: "buildArticleMarkdown r
     = trim (js ''# T'' @ [0x0A] @ js ''**'' @ [0x6765, 0x6E90] @ js ''**: http://h/x''
          @ [0x0A, 0x0A] @ js ''---'' @ [0x0A, 0x0A] @ js ''see http://h/a.png'') @ [0x0A]"
    unfolding r_def by (rule markdown_T)
  have rw: "utf8Encode (rewriteMarkdown (buildArticleMarkdown r)
     [\<lparr>originalUrl = js ''http://h/a.png'',
       relativePath = js ''assets/images/h/a.png'', assetContent = [1, 2, 3]\<rparr>,
      \<lparr>originalUrl = js ''http://h/b.pdf'',
       relativePath = js ''assets/files/h/b.pdf'', assetContent = [1, 2, 3]\<rparr>]) = stubIndex"
    unfolding md rewrite_stub rewrite_stub_pdf stubIndex_def ..
  have p: "js ''001_T'' @ js ''/'' @ js ''assets/images/h/a.png'' = js ''001_T/assets/images/h/a.png''"
    "js ''001_T'' @ js ''/'' @ js ''assets/files/h/b.pdf'' = js ''001_T/assets/files/h/b.pdf''"
    "js ''001_T'' @ js ''/index.md'' = js ''001_T/index.md''"
    by (simp_all add: js_def)
  have "?job = extractedJob stubPlatform stubWorld options st 0 (js ''http://h/x'') r assets"
    by (simp add: processJob_def ex f options_def)
  also have "\<dots> = ?out"
    unfolding extractedJob_eq(3) [OF folder clean] items b pool_stub
    by (simp add: okAssets_def assetEntry_def rw p pickAssets_def assets_def options_def)
  finally show ?thesis .
qed

lemma folder_h:
  "safeArticleFolder stubPlatform (js ''http://h/y'') None (Suc 0) = Some (js ''002_h'')"
proof -
  have "toStringRadix 10 (Suc (Suc 0)) = [0x32]"
    by (subst toStringRadix.simps) (simp add: digitChar_def)
  moreover have "replicate 2 (0x30::jschar) = [0x30, 0x30]" by (simp add: eval_nat_numeral)
  ultimately show ?thesis
    by (simp add: safeArticleFolder_def padStart_def eval_strings)
qed

lemma job_stub_failed:
  assumes f: "failure st = None"
  shows "processJob stubPlatform stubWorld options st (Suc 0, js ''http://h/y'')
     = st\<lparr>tarEntries := tarEntries st
            @ [TarFile (js ''002_h/error.md'')
                 (utf8Encode (errorMd (js ''http://h/y'') (js ''boom''))) None None],
          runManifest := (runManifest st)
            \<lparr>failed := failed (runManifest st) + 1,
             results := results (runManifest st)
               @ [JobFailed (js ''http://h/y'') (js ''002_h'') (js ''boom'')]\<rparr>\<rparr>"
proof -
  have ex: "extractArticleWithAssets stubWorld (Suc 0) (js ''http://h/y'') = ExtractError (js ''boom'')"
    by (simp add: stubWorld_def)
  note folder = folder_h
  have p: "js ''002_h'' @ js ''/error.md'' = js ''002_h/error.md''" by (simp add: js_def)
  show ?thesis
    by (simp add: processJob_def f ex failedJob_eq(2) [OF folder] p)
qed

lemma run_stub:
  "packageRun stubPlatform stubWorld [js ''http://h/x'', js ''http://h/y'']
     \<lparr>downloadImages = True, downloadFiles = True\<rparr>
   = \<lparr>tarEntries =
        [TarFile (js ''001_T/assets/images/h/a.png'') [1, 2, 3] None None,
         TarFile (js ''001_T/assets/files/h/b.pdf'') [1, 2, 3] None None,
         TarFile (js ''001_T/index.md'') stubIndex None None,
         TarFile (js ''002_h/error.md'')
           (utf8Encode (errorMd (js ''http://h/y'') (js ''boom''))) None None],
      runManifest = \<lparr>total = 2, success = 1, failed = 1,
        results = [JobOk (js ''http://h/x'') (js ''001_T'') 1 1 2,
                   JobFailed (js ''http://h/y'') (js ''002_h'') (js ''boom'')]\<rparr>,
      assetBytes = 6,
      events = [ExtractCall (js ''http://h/x''), ExtractCall (js ''http://h/y''),
                FetchCall Images (js ''http://h/a.png'') (js ''http://h/x''),
                FetchCall Files (js ''http://h/b.pdf'') (js ''http://h/x'')],
      failure = None\<rparr>"
  unfolding packageRun_two
  by (subst job_stub; simp)+ (subst job_stub_failed; simp)

section \<open>Counters, entries and calls\<close>

lemma job_stub_images:
  assumes f: "failure st = None" and b: "assetBytes st = 0"
  shows "processJob stubPlatform stubWorld \<lparr>downloadImages = True, downloadFiles = False\<rparr> st
           (0, js ''http://h/x'')
     = st\<lparr>assetBytes := 3,
          events := events st
            @ [FetchCall Images (js ''http://h/a.png'') (js ''http://h/x'')],
          tarEntries := tarEntries st
            @ [TarFile (js ''001_T/assets/images/h/a.png'') [1, 2, 3] None None,
               TarFile (js ''001_T/index.md'') stubIndex None None],
          runManifest := (runManifest st)
            \<lparr>success := success (runManifest st) + 1,
             results := results (runManifest st)
               @ [JobOk (js ''http://h/x'') (js ''001_T'') 1 0 1]\<rparr>\<rparr>"
    (is "?job = ?out")
proof -
  define r where "r = \<lparr>title = Some (js ''T''), articleContent = js ''see http://h/a.png'',
                   author = None, date = None, articleUrl = js ''http://h/x''\<rparr>"
  define assets where "assets = \<lparr>images = [js ''http://h/a.png''], files = [js ''http://h/b.pdf'']\<rparr>"
  define options where "options = \<lparr>downloadImages = True, downloadFiles = False\<rparr>"
  have ex: "extractArticleWithAssets stubWorld 0 (js ''http://h/x'') = Extracted r assets"
    by (simp add: stubWorld_def r_def assets_def)
  have items: "assetItems (pickAssets assets options) = [(Images, js ''http://h/a.png'')]"
    by (simp add: assetItems_def pickAssets_def assets_def options_def)
  have folder: "safeArticleFolder stubPlatform (js ''http://h/x'') (title r) 0 = Some (js ''001_T'')"
    unfolding r_def using folder_T by simp
  have clean: "thrown (downloadAssets stubPlatform stubWorld 0 (js ''http://h/x'')
      (assetItems (pickAssets assets options)) (assetBytes st)) = None"
    unfolding items b pool_stub_images by simp
  have md: "buildArticleMarkdown r
     = trim (js ''# T'' @ [0x0A] @ js ''**'' @ [0x6765, 0x6E90] @ js ''**: http://h/x''
          @ [0x0A, 0x0A] @ js ''---'' @ [0x0A, 0x0A] @ js ''see http://h/a.png'') @ [0x0A]"
    unfolding r_def by (rule markdown_T)
  have e: "rewriteMarkdown t [] = t" for t by (simp add: rewriteMarkdown_def)
  have rw: "utf8Encode (rewriteMarkdown (buildArticleMarkdown r)
     [\<lparr>originalUrl = js ''http://h/a.png'',
       relativePath = js ''assets/images/h/a.png'', assetContent = [1, 2, 3]\<rparr>]) = stubIndex"
    unfolding md rewrite_stub e stubIndex_def ..
  have p: "js ''001_T'' @ js ''/'' @ js ''assets/images/h/a.png'' = js ''001_T/assets/images/h/a.png''"
    "js ''001_T'' @ js ''/index.md'' = js ''001_T/index.md''"
    by (simp_all add: js_def)
  have "?job = extractedJob stubPlatform stubWorld options st 0 (js ''http://h/x'') r assets"
    by (simp add: processJob_def ex f options_def)
  also have "\<dots> = ?out"
    unfolding extractedJob_eq(3) [OF folder clean] items b pool_stub_images
    by (simp add: okAssets_def assetEntry_def rw p pickAssets_def assets_def options_def)
  finally show ?thesis .
qed

lemma run_stub_images:
  "packageRun stubPlatform stubWorld [js ''http://h/x'']
     \<lparr>downloadImages = True, downloadFiles = False\<rparr>
   = \<lparr>tarEntries =
        [TarFile (js ''001_T/assets/images/h/a.png'') [1, 2, 3] None None,
         TarFile (js ''001_T/index.md'') stubIndex None None],
      runManifest = \<lparr>total = 1, success = 1, failed = 0,
        results = [JobOk (js ''http://h/x'') (js ''001_T'') 1 0 1]\<rparr>,
      assetBytes = 3,
      events = [ExtractCall (js ''http://h/x''),
                FetchCall Images (js ''http://h/a.png'') (js ''http://h/x'')],
      failure = None\<rparr>"
  unfolding packageRun_one
  by (subst job_stub_images; simp)

lemma stubURL_x:
  "stubURL (js ''http://h/x'')
     = Some \<lparr>protocol = js ''http:'', hostname = js ''h'', pathname = js ''/x''\<rparr>"
  "stubURL (js ''http://h/y'')
     = Some \<lparr>protocol = js ''http:'', hostname = js ''h'', pathname = js ''/y''\<rparr>"
  by (simp_all add: stubURL_def js_def Let_def)

lemma accepted_stub:
  "\<not> rejectedList stubPlatform [js ''http://h/x'']"
  "\<not> rejectedList stubPlatform [js ''http://h/x'', js ''http://h/y'']"
  by (simp_all add: rejectedList_def stubPlatform_def stubURL_x)

text \<open>What the budget step does to the counter, in every branch of \<open>downloadAsset\<close>.\<close>

lemma downloadAsset_over_budget:
  "arrayBuffer response = Inr buf \<Longrightarrow> MAX_TOTAL_ASSET_BYTES < b + length buf \<Longrightarrow>
   downloadAsset pf (Responded response) u kind used b = (Inr None, used, b)"
  by (simp add: downloadAsset_def Let_def acceptBytes_def)

lemma downloadAsset_counter:
  "downloadAsset pf answer u kind used b = (res, used', b') \<Longrightarrow>
   b' = b
   \<or> (\<exists>response buf. answer = Responded response \<and> arrayBuffer response = Inr buf
         \<and> b' = b + length buf \<and> b + length buf \<le> MAX_TOTAL_ASSET_BYTES)"
  unfolding downloadAsset_def Let_def
  by (auto split: fetchResult.splits if_splits sum.splits option.splits prod.splits
      dest: acceptBytes_Some)

lemma completeNext_bytes:
  "totalBytes st \<le> MAX_TOTAL_ASSET_BYTES \<Longrightarrow>
   totalBytes (completeNext pf fetchJob rank referer items st) \<le> MAX_TOTAL_ASSET_BYTES"
proof -
  assume le: "totalBytes st \<le> MAX_TOTAL_ASSET_BYTES"
  define k where "k = arg_min_list rank (inFlight st)"
  obtain kind u where item: "items ! k = (kind, u)" by (cases "items ! k")
  obtain res used' b' where d: "downloadAsset pf (fetchJob k u referer) u kind
        (usedPaths st) (totalBytes st) = (res, used', b')"
    by (cases "downloadAsset pf (fetchJob k u referer) u kind (usedPaths st) (totalBytes st)")
  from downloadAsset_result [OF d] le have b: "b' \<le> MAX_TOTAL_ASSET_BYTES" by simp
  show ?thesis
  proof (cases res)
    case (Inl m)
    have "completeNext pf fetchJob rank referer items st
           = st\<lparr>inFlight := remove1 k (inFlight st), usedPaths := used', totalBytes := b',
                thrown := Some m\<rparr>"
      using k_def item d [unfolded Inl] by (rule completeNext_Inl)
    with b show ?thesis by simp
  next
    case (Inr a)
    have "completeNext pf fetchJob rank referer items st
           = startNext referer items
               (st\<lparr>inFlight := remove1 k (inFlight st), usedPaths := used', totalBytes := b',
                   downloaded := (downloaded st)[k := a]\<rparr>)"
      using k_def item d [unfolded Inr] by (rule completeNext_Inr)
    with b show ?thesis by (simp add: startNext_fields)
  qed
qed

lemma completeNext_grows:
  "totalBytes st \<le> totalBytes (completeNext pf fetchJob rank referer items st)"
proof -
  define k where "k = arg_min_list rank (inFlight st)"
  obtain kind u where item: "items ! k = (kind, u)" by (cases "items ! k")
  obtain res used' b' where d: "downloadAsset pf (fetchJob k u referer) u kind
        (usedPaths st) (totalBytes st) = (res, used', b')"
    by (cases "downloadAsset pf (fetchJob k u referer) u kind (usedPaths st) (totalBytes st)")
  from downloadAsset_result [OF d] have b: "totalBytes st \<le> b'" by simp
  show ?thesis
  proof (cases res)
    case (Inl m)
    have "completeNext pf fetchJob rank referer items st
           = st\<lparr>inFlight := remove1 k (inFlight st), usedPaths := used', totalBytes := b',
                thrown := Some m\<rparr>"
      using k_def item d [unfolded Inl] by (rule completeNext_Inl)
    with b show ?thesis by simp
  next
    case (Inr a)
    have "completeNext pf fetchJob rank referer items st
           = startNext referer items
               (st\<lparr>inFlight := remove1 k (inFlight st), usedPaths := used', totalBytes := b',
                   downloaded := (downloaded st)[k := a]\<rparr>)"
      using k_def item d [unfolded Inr] by (rule completeNext_Inr)
    with b show ?thesis by (simp add: startNext_fields)
  qed
qed

lemma manifest_outside:
  "assetEntryBytes [manifestEntry pf m] = 0"
  "entriesUnder kind [manifestEntry pf m] = []"
  "filter (inFolder f) [manifestEntry pf m] = []"
  "filter (\<lambda>e. 0x2F \<in> set (path e)) [manifestEntry pf m] = []"
proof -
  have i: "insideFolder (js ''manifest.json'') = []"
    by (simp add: insideFolder_def js_def)
  have s: "0x2F \<notin> set (js ''manifest.json'')" by (simp add: js_def)
  have a: "\<not> startsWith [] (js ''assets/'')" by (simp add: startsWith_def js_def)
  have k: "\<not> startsWith [] (assetPrefix kind)"
    by (cases kind) (simp_all add: startsWith_def assetPrefix_def js_def)
  show "assetEntryBytes [manifestEntry pf m] = 0"
    by (simp add: assetEntryBytes_def manifestEntry_def i a)
  show "entriesUnder kind [manifestEntry pf m] = []"
    by (simp add: entriesUnder_def manifestEntry_def i k)
  show "filter (inFolder f) [manifestEntry pf m] = []"
    using s by (simp add: inFolder_def manifestEntry_def)
  show "filter (\<lambda>e. 0x2F \<in> set (path e)) [manifestEntry pf m] = []"
    using s by (simp add: manifestEntry_def)
qed

lemma archived_bytes:
  "assetEntryBytes (archived pf w urls options) \<le> assetBytes (packageRun pf w urls options)"
  using packageRun_bytes [of pf w urls options]
  by (simp add: archived_def assetEntryBytes_append manifest_outside bytesInvariant_def)

lemma archived_kindFree:
  "\<not> kindEnabled options kind \<Longrightarrow> entriesUnder kind (archived pf w urls options) = []"
  using packageRun_kindFree [of options kind pf w urls]
  by (simp add: archived_def entriesUnder_append manifest_outside kindFree_def)


lemma disabled_no_items:
  "\<not> kindEnabled options kind \<Longrightarrow>
   filter (\<lambda>item. fst item = kind) (assetItems (pickAssets assets options)) = []"
  by (cases kind) (auto simp: assetItems_def pickAssets_def filter_empty_conv)

lemma enabled_logged:
  "downloadImages options \<Longrightarrow> x \<in> set (images assets) \<Longrightarrow>
   FetchCall Images x u \<in> set (fetchLog u (assetItems (pickAssets assets options)))"
  "downloadFiles options \<Longrightarrow> y \<in> set (files assets) \<Longrightarrow>
   FetchCall Files y u \<in> set (fetchLog u (assetItems (pickAssets assets options)))"
  by (force simp: fetchLog_def assetItems_def pickAssets_def)+

lemma jobFetches_logged:
  assumes "i < length urls"
  shows "set (jobFetches w options (i, urls ! i)) \<subseteq> set (callLog w options urls)"
proof -
  have "(i, urls ! i) \<in> set (zip [0..<length urls] urls)"
    using assms by (force simp: in_set_zip)
  then show ?thesis by (auto simp: callLog_def)
qed


section \<open>One folder for every URL\<close>

lemma packageRun_reflects:
  assumes l: "length urls \<le> 999" and f: "failure (packageRun pf w urls options) = None"
  shows "total (runManifest (packageRun pf w urls options)) = length urls"
    and "success (runManifest (packageRun pf w urls options))
           + failed (runManifest (packageRun pf w urls options)) = length urls"
    and "failed (runManifest (packageRun pf w urls options))
           = length (filter isFailed (results (runManifest (packageRun pf w urls options))))"
    and "map jobUrl (results (runManifest (packageRun pf w urls options))) = urls"
    and "topFolders (tarEntries (packageRun pf w urls options))
           = map jobFolder (results (runManifest (packageRun pf w urls options)))"
    and "distinct (map jobFolder (results (runManifest (packageRun pf w urls options))))"
    and "\<forall>i < length urls.
           jobMatches w options i (urls ! i)
             (results (runManifest (packageRun pf w urls options)) ! i)
           \<and> folderContent (results (runManifest (packageRun pf w urls options)) ! i)
               (filter (inFolder (jobFolder
                   (results (runManifest (packageRun pf w urls options)) ! i)))
                 (tarEntries (packageRun pf w urls options)))"
proof -
  define run where "run = packageRun pf w urls options"
  define rs where "rs = results (runManifest run)"
  have inv: "manifestInvariant w options (length urls) urls run"
    unfolding run_def using l by (rule packageRun_manifest)
  from f have f': "failure run = None" by (simp add: run_def)
  from inv f' have t: "total (runManifest run) = length urls"
    and s: "success (runManifest run) = length (filter (\<lambda>r. \<not> isFailed r) rs)"
    and fl: "failed (runManifest run) = length (filter isFailed rs)"
    and us: "map jobUrl rs = urls"
    and fo: "\<forall>i < length urls. folderOf i (jobFolder (rs ! i))
                \<and> jobMatches w options i (urls ! i) (rs ! i)"
    and tf: "topFolders (tarEntries run) = map jobFolder rs"
    and fc: "\<forall>r \<in> set rs. folderContent r (filter (inFolder (jobFolder r)) (tarEntries run))"
    by (simp_all add: manifestInvariant_def rs_def)
  have len: "length rs = length urls" using us by (metis length_map)
  have "length (filter isFailed rs) + length (filter (\<lambda>r. \<not> isFailed r) rs) = length rs"
    by (rule sum_length_filter_compl)
  with s fl len have sum: "success (runManifest run) + failed (runManifest run) = length urls"
    by simp
  have d: "distinct (map jobFolder rs)"
    unfolding distinct_conv_nth
  proof (intro allI impI)
    fix i j
    assume i: "i < length (map jobFolder rs)" and j: "j < length (map jobFolder rs)"
      and ne: "i \<noteq> j"
    show "map jobFolder rs ! i \<noteq> map jobFolder rs ! j"
    proof
      assume "map jobFolder rs ! i = map jobFolder rs ! j"
      with i j have e: "jobFolder (rs ! i) = jobFolder (rs ! j)" by simp
      from fo i len have "folderOf i (jobFolder (rs ! i))" by simp
      moreover from fo j len e have "folderOf j (jobFolder (rs ! i))" by simp
      ultimately have "i = j" by (rule folderOf_inj)
      with ne show False by simp
    qed
  qed
  have each: "\<forall>i < length urls. jobMatches w options i (urls ! i) (rs ! i)
        \<and> folderContent (rs ! i) (filter (inFolder (jobFolder (rs ! i))) (tarEntries run))"
  proof (intro allI impI)
    fix i assume i: "i < length urls"
    with len have "rs ! i \<in> set rs" by simp
    with fc have "folderContent (rs ! i) (filter (inFolder (jobFolder (rs ! i))) (tarEntries run))"
      by simp
    with fo i show "jobMatches w options i (urls ! i) (rs ! i)
        \<and> folderContent (rs ! i) (filter (inFolder (jobFolder (rs ! i))) (tarEntries run))"
      by simp
  qed
  show "total (runManifest (packageRun pf w urls options)) = length urls"
    using t by (simp add: run_def)
  show "success (runManifest (packageRun pf w urls options))
           + failed (runManifest (packageRun pf w urls options)) = length urls"
    using sum by (simp add: run_def)
  show "failed (runManifest (packageRun pf w urls options))
           = length (filter isFailed (results (runManifest (packageRun pf w urls options))))"
    using fl by (simp add: run_def rs_def)
  show "map jobUrl (results (runManifest (packageRun pf w urls options))) = urls"
    using us by (simp add: run_def rs_def)
  show "topFolders (tarEntries (packageRun pf w urls options))
           = map jobFolder (results (runManifest (packageRun pf w urls options)))"
    using tf by (simp add: run_def rs_def)
  show "distinct (map jobFolder (results (runManifest (packageRun pf w urls options))))"
    using d by (simp add: run_def rs_def)
  show "\<forall>i < length urls.
           jobMatches w options i (urls ! i)
             (results (runManifest (packageRun pf w urls options)) ! i)
           \<and> folderContent (results (runManifest (packageRun pf w urls options)) ! i)
               (filter (inFolder (jobFolder
                   (results (runManifest (packageRun pf w urls options)) ! i)))
                 (tarEntries (packageRun pf w urls options)))"
    using each by (simp add: run_def rs_def)
qed

lemma accepted_length: "\<not> rejectedList pf urls \<Longrightarrow> length urls \<le> 999"
  by (simp add: rejectedList_def)


section \<open>The request for two articles\<close>



section \<open>The ceiling of the asset bytes\<close>

text \<open>
  Claim C4. The budget step of \<open>downloadAsset\<close>: a body that would take the counter over
  the ceiling is refused with \<open>null\<close> and the counter stays; a call changes the counter
  only by adding the length of a body that keeps it within the ceiling, and an asset is
  returned only with its bytes added. A completion in a pool takes the counter as the
  completions before it left it, never lowers it and leaves it within the ceiling,
  whichever call the world completes next. So the counter of a whole run is within the ceiling, and the
  bytes of the asset entries handed to the encoder are at most the counter.
\<close>

theorem asset_bytes_ceiling:
  "(arrayBuffer response = Inr buf \<and> MAX_TOTAL_ASSET_BYTES < b + length buf \<longrightarrow>
      downloadAsset pf (Responded response) u kind used b = (Inr None, used, b))
   \<and> (downloadAsset pf answer u' kind' usedBefore c = (res, usedAfter, c') \<longrightarrow>
        (c' = c
         \<or> (\<exists>response' buf'. answer = Responded response' \<and> arrayBuffer response' = Inr buf'
               \<and> c' = c + length buf' \<and> c + length buf' \<le> MAX_TOTAL_ASSET_BYTES))
        \<and> (\<forall>a. res = Inr (Some a) \<longrightarrow> c' = c + length (assetContent a)))
   \<and> totalBytes st \<le> totalBytes (completeNext pf fetchJob rank referer items st)
   \<and> (totalBytes st \<le> MAX_TOTAL_ASSET_BYTES \<longrightarrow>
        totalBytes (completeNext pf fetchJob rank referer items st) \<le> MAX_TOTAL_ASSET_BYTES)
   \<and> totalBytes (downloadAssets pf w job referer items 0) \<le> MAX_TOTAL_ASSET_BYTES
   \<and> assetBytes (packageRun pf w urls options) \<le> MAX_TOTAL_ASSET_BYTES
   \<and> assetEntryBytes (archived pf w urls options) \<le> assetBytes (packageRun pf w urls options)"
proof -
  have one: "arrayBuffer response = Inr buf \<and> MAX_TOTAL_ASSET_BYTES < b + length buf \<longrightarrow>
      downloadAsset pf (Responded response) u kind used b = (Inr None, used, b)"
    using downloadAsset_over_budget by blast
  have two: "downloadAsset pf answer u' kind' usedBefore c = (res, usedAfter, c') \<longrightarrow>
        (c' = c
         \<or> (\<exists>response' buf'. answer = Responded response' \<and> arrayBuffer response' = Inr buf'
               \<and> c' = c + length buf' \<and> c + length buf' \<le> MAX_TOTAL_ASSET_BYTES))
        \<and> (\<forall>a. res = Inr (Some a) \<longrightarrow> c' = c + length (assetContent a))"
  proof
    assume d: "downloadAsset pf answer u' kind' usedBefore c = (res, usedAfter, c')"
    from downloadAsset_counter [OF d] downloadAsset_result [OF d]
    show "(c' = c
         \<or> (\<exists>response' buf'. answer = Responded response' \<and> arrayBuffer response' = Inr buf'
               \<and> c' = c + length buf' \<and> c + length buf' \<le> MAX_TOTAL_ASSET_BYTES))
        \<and> (\<forall>a. res = Inr (Some a) \<longrightarrow> c' = c + length (assetContent a))"
      by simp
  qed
  have grows: "totalBytes st \<le> totalBytes (completeNext pf fetchJob rank referer items st)"
    by (rule completeNext_grows)
  have three: "totalBytes st \<le> MAX_TOTAL_ASSET_BYTES \<longrightarrow>
        totalBytes (completeNext pf fetchJob rank referer items st) \<le> MAX_TOTAL_ASSET_BYTES"
    using completeNext_bytes by blast
  have four: "totalBytes (downloadAssets pf w job referer items 0) \<le> MAX_TOTAL_ASSET_BYTES"
    using downloadAssets_progress [of 0 pf w job referer items] by simp
  have five: "assetBytes (packageRun pf w urls options) \<le> MAX_TOTAL_ASSET_BYTES"
    using packageRun_bytes [of pf w urls options] by (simp add: bytesInvariant_def)
  have six: "assetEntryBytes (archived pf w urls options)
      \<le> assetBytes (packageRun pf w urls options)"
    by (rule archived_bytes)
  show ?thesis by (intro conjI one two grows three four five six)
qed

text \<open>
  The theorem at a body of three bytes that arrives two bytes below the ceiling and at
  one that arrives with the counter at zero, and at the run for the two articles of the
  stand-in world, which archives two assets of three bytes.
\<close>

theorem asset_bytes_ceiling_witness:
  "MAX_TOTAL_ASSET_BYTES < (MAX_TOTAL_ASSET_BYTES - 2) + length [1, 2, 3 :: byte]
   \<and> downloadAsset stubPlatform
        (Responded \<lparr>ok = True, contentType = None, contentDisposition = None,
                    arrayBuffer = Inr [1, 2, 3]\<rparr>)
        (js ''http://h/a.png'') Images {} (MAX_TOTAL_ASSET_BYTES - 2)
       = (Inr None, {}, MAX_TOTAL_ASSET_BYTES - 2)
   \<and> downloadAsset stubPlatform
        (Responded \<lparr>ok = True, contentType = None, contentDisposition = None,
                    arrayBuffer = Inr [1, 2, 3]\<rparr>)
        (js ''http://h/a.png'') Images {} 0
       = (Inr (Some \<lparr>originalUrl = js ''http://h/a.png'',
                      relativePath = js ''assets/images/h/a.png'', assetContent = [1, 2, 3]\<rparr>),
          {js ''assets/images/h/a.png''}, 3)
   \<and> assetBytes (packageRun stubPlatform stubWorld [js ''http://h/x'', js ''http://h/y'']
         \<lparr>downloadImages = True, downloadFiles = True\<rparr>) = 6
   \<and> assetEntryBytes (archived stubPlatform stubWorld [js ''http://h/x'', js ''http://h/y'']
         \<lparr>downloadImages = True, downloadFiles = True\<rparr>) = 6
   \<and> 6 \<le> MAX_TOTAL_ASSET_BYTES"
proof -
  define response where "response = \<lparr>ok = True, contentType = None, contentDisposition = None,
                    arrayBuffer = Inr [1, 2, 3 :: byte]\<rparr>"
  define st :: downloadState where "st = poolStart [] 0"
  note t = asset_bytes_ceiling [where response = response and buf = "[1, 2, 3]"
      and b = "MAX_TOTAL_ASSET_BYTES - 2" and pf = stubPlatform
      and u = "js ''http://h/a.png''" and kind = Images and used = "{}"
      and st = st and items = "[]" and referer = "[]" and rank = "\<lambda>k. k"
      and fetchJob = "\<lambda>k u r. Responded response" and w = stubWorld and job = 0
      and urls = "[js ''http://h/x'', js ''http://h/y'']"
      and options = "\<lparr>downloadImages = True, downloadFiles = True\<rparr>"
      and answer = "Responded response" and c = 0 and c' = 3 and usedBefore = "{}"
      and kind' = Images and u' = "js ''http://h/a.png''"
      and usedAfter = "{js ''assets/images/h/a.png''}"
      and res = "Inr (Some \<lparr>originalUrl = js ''http://h/a.png'',
                      relativePath = js ''assets/images/h/a.png'', assetContent = [1, 2, 3]\<rparr>)"]
  have over: "MAX_TOTAL_ASSET_BYTES < (MAX_TOTAL_ASSET_BYTES - 2) + length [1, 2, 3 :: byte]"
    by (simp add: MAX_TOTAL_ASSET_BYTES_def)
  have ab: "arrayBuffer response = Inr [1, 2, 3]" by (simp add: response_def)
  from t over ab have refused: "downloadAsset stubPlatform (Responded response)
        (js ''http://h/a.png'') Images {} (MAX_TOTAL_ASSET_BYTES - 2)
       = (Inr None, {}, MAX_TOTAL_ASSET_BYTES - 2)"
    by blast
  have kept: "downloadAsset stubPlatform (Responded response) (js ''http://h/a.png'') Images {} 0
       = (Inr (Some \<lparr>originalUrl = js ''http://h/a.png'',
                      relativePath = js ''assets/images/h/a.png'', assetContent = [1, 2, 3]\<rparr>),
          {js ''assets/images/h/a.png''}, 3)"
    unfolding response_def by (rule download_a)
  have counter: "assetBytes (packageRun stubPlatform stubWorld [js ''http://h/x'', js ''http://h/y'']
         \<lparr>downloadImages = True, downloadFiles = True\<rparr>) = 6"
    by (simp add: run_stub)
  from t counter have le: "6 \<le> MAX_TOTAL_ASSET_BYTES" by simp
  have i: "insideFolder (js ''001_T/assets/images/h/a.png'') = js ''assets/images/h/a.png''"
    "insideFolder (js ''001_T/assets/files/h/b.pdf'') = js ''assets/files/h/b.pdf''"
    "insideFolder (js ''001_T/index.md'') = js ''index.md''"
    "insideFolder (js ''002_h/error.md'') = js ''error.md''"
    by (simp_all add: insideFolder_def js_def)
  have s: "startsWith (js ''assets/images/h/a.png'') (js ''assets/'')"
    "startsWith (js ''assets/files/h/b.pdf'') (js ''assets/'')"
    by (simp_all add: startsWith_def js_def)
  have entries: "assetEntryBytes (archived stubPlatform stubWorld [js ''http://h/x'', js ''http://h/y'']
         \<lparr>downloadImages = True, downloadFiles = True\<rparr>) = 6"
    unfolding archived_def assetEntryBytes_append manifest_outside
    by (simp add: run_stub assetEntryBytes_def i s md_not_assets)
  show ?thesis
    using over refused kept counter entries le unfolding response_def by simp
qed

section \<open>The options of a request\<close>

lemma imagesBody_fields:
  "requestUrls imagesBody = [js ''http://h/x'']"
  "requestOptions imagesBody = \<lparr>downloadImages = True, downloadFiles = False\<rparr>"
  "httpMethod imagesRequest = js ''POST''"
  "body imagesRequest = Some imagesBody"
  by (simp_all add: imagesBody_def imagesRequest_def requestUrls_def requestOptions_def js_def)

lemma handler_images:
  "handler stubPlatform stubWorld imagesRequest =
     \<lparr>status = 200,
      sent = Gzip (createTarGz stubPlatform 0
               (archived stubPlatform stubWorld [js ''http://h/x'']
                  \<lparr>downloadImages = True, downloadFiles = False\<rparr>)),
      calls = [ExtractCall (js ''http://h/x''),
               FetchCall Images (js ''http://h/a.png'') (js ''http://h/x'')]\<rparr>"
proof -
  have v: "\<not> rejectedList stubPlatform (requestUrls imagesBody)"
    unfolding imagesBody_fields by (rule accepted_stub)
  have n: "nowSeconds stubWorld = 0" by (simp add: stubWorld_def)
  show ?thesis
    unfolding handler_post [OF imagesBody_fields(3) imagesBody_fields(4) v] imagesBody_fields n
    by (simp add: run_stub_images)
qed

text \<open>
  Claim C7. With an asset kind turned off, \<open>pickAssets\<close> hands no asset of that kind to
  the pool of any article, no call of \<open>fetch\<close> for that kind is among the calls of the run
  or of the handler, whether the request ends with an archive or with an error, and no
  entry handed to the encoder lies under \<open>assets/files/\<close> (or \<open>assets/images/\<close>) of a
  folder.
\<close>

theorem disabled_kind_untouched:
  assumes "\<not> kindEnabled options kind"
  shows "filter (\<lambda>item. fst item = kind) (assetItems (pickAssets assets options)) = []
     \<and> fetchesOf kind (events (packageRun pf w urls options)) = []
     \<and> entriesUnder kind (archived pf w urls options) = []
     \<and> (body req = Some b \<and> requestOptions b = options \<longrightarrow>
           fetchesOf kind (calls (handler pf w req)) = [])"
proof -
  have one: "filter (\<lambda>item. fst item = kind) (assetItems (pickAssets assets options)) = []"
    using assms by (rule disabled_no_items)
  have two: "fetchesOf kind (events (packageRun pf w urls' options)) = []" for urls'
    using packageRun_kindFree [OF assms, of pf w urls'] by (simp add: kindFree_def)
  have three: "entriesUnder kind (archived pf w urls options) = []"
    using assms by (rule archived_kindFree)
  have four: "body req = Some b \<and> requestOptions b = options \<longrightarrow>
           fetchesOf kind (calls (handler pf w req)) = []"
  proof
    assume a: "body req = Some b \<and> requestOptions b = options"
    from handler_calls [of pf w req]
    show "fetchesOf kind (calls (handler pf w req)) = []"
    proof
      assume "calls (handler pf w req) = []"
      then show ?thesis by (simp add: fetchesOf_def)
    next
      assume "\<exists>b. body req = Some b
         \<and> calls (handler pf w req)
             = events (packageRun pf w (requestUrls b) (requestOptions b))"
      with a have "calls (handler pf w req) = events (packageRun pf w (requestUrls b) options)"
        by auto
      with two show ?thesis by simp
    qed
  qed
  show ?thesis by (intro conjI one two three four)
qed

text \<open>
  The theorem at the request that turns the files off, for an article with one image and
  one file: the image is fetched and archived, the file is not.
\<close>

theorem disabled_kind_untouched_witness:
  "\<not> kindEnabled (requestOptions imagesBody) Files
   \<and> body imagesRequest = Some imagesBody
   \<and> extractArticleWithAssets stubWorld 0 (js ''http://h/x'')
       = Extracted
           \<lparr>title = Some (js ''T''), articleContent = js ''see http://h/a.png'',
            author = None, date = None, articleUrl = js ''http://h/x''\<rparr>
           \<lparr>images = [js ''http://h/a.png''], files = [js ''http://h/b.pdf'']\<rparr>
   \<and> assetItems (pickAssets \<lparr>images = [js ''http://h/a.png''], files = [js ''http://h/b.pdf'']\<rparr>
         (requestOptions imagesBody)) = [(Images, js ''http://h/a.png'')]
   \<and> calls (handler stubPlatform stubWorld imagesRequest)
       = [ExtractCall (js ''http://h/x''),
          FetchCall Images (js ''http://h/a.png'') (js ''http://h/x'')]
   \<and> fetchesOf Files (calls (handler stubPlatform stubWorld imagesRequest)) = []
   \<and> map path (archived stubPlatform stubWorld (requestUrls imagesBody)
         (requestOptions imagesBody))
       = [js ''001_T/assets/images/h/a.png'', js ''001_T/index.md'', js ''manifest.json'']
   \<and> entriesUnder Files (archived stubPlatform stubWorld (requestUrls imagesBody)
         (requestOptions imagesBody)) = []"
proof -
  have off: "\<not> kindEnabled (requestOptions imagesBody) Files"
    by (simp add: imagesBody_fields)
  note t = disabled_kind_untouched [OF off, where pf = stubPlatform and w = stubWorld
      and urls = "requestUrls imagesBody" and req = imagesRequest and b = imagesBody]
  have ex: "extractArticleWithAssets stubWorld 0 (js ''http://h/x'')
       = Extracted
           \<lparr>title = Some (js ''T''), articleContent = js ''see http://h/a.png'',
            author = None, date = None, articleUrl = js ''http://h/x''\<rparr>
           \<lparr>images = [js ''http://h/a.png''], files = [js ''http://h/b.pdf'']\<rparr>"
    by (simp add: stubWorld_def)
  have items: "assetItems (pickAssets \<lparr>images = [js ''http://h/a.png''], files = [js ''http://h/b.pdf'']\<rparr>
         (requestOptions imagesBody)) = [(Images, js ''http://h/a.png'')]"
    by (simp add: imagesBody_fields assetItems_def pickAssets_def)
  have cs: "calls (handler stubPlatform stubWorld imagesRequest)
       = [ExtractCall (js ''http://h/x''),
          FetchCall Images (js ''http://h/a.png'') (js ''http://h/x'')]"
    by (simp add: handler_images)
  from t have nf: "fetchesOf Files (calls (handler stubPlatform stubWorld imagesRequest)) = []"
    by (simp add: imagesBody_fields)
  from t have nu: "entriesUnder Files (archived stubPlatform stubWorld (requestUrls imagesBody)
         (requestOptions imagesBody)) = []"
    by simp
  have ps: "map path (archived stubPlatform stubWorld (requestUrls imagesBody)
         (requestOptions imagesBody))
       = [js ''001_T/assets/images/h/a.png'', js ''001_T/index.md'', js ''manifest.json'']"
    by (simp add: imagesBody_fields archived_def run_stub_images manifestEntry_def)
  show ?thesis
    by (intro conjI off imagesBody_fields(4) ex items cs nf ps nu)
qed

text \<open>
  Claim C10. For a POST request that is answered with an archive, and an article of it
  that the extractor delivers: unless the field \<open>downloadImages\<close> of the body is exactly
  the boolean \<open>false\<close> (so also when it is absent, \<open>null\<close>, \<open>0\<close> or the string
  \<open>"false"\<close>), the handler calls \<open>fetch\<close> for every image of the article and the manifest
  counts them all; when it is \<open>false\<close>, the handler calls \<open>fetch\<close> for no image and the
  manifest counts none. The same holds of \<open>downloadFiles\<close> and the files.
\<close>

theorem handler_options_permissive:
  assumes post: "httpMethod req = js ''POST''" and b: "body req = Some b"
    and ok: "status (handler pf w req) = 200"
    and i: "i < length (requestUrls b)"
    and ex: "extractArticleWithAssets w i (requestUrls b ! i) = Extracted r assets"
  shows "(if bodyDownloadImages b = JBool False
          then fetchesOf Images (calls (handler pf w req)) = []
          else \<forall>x \<in> set (images assets).
                 FetchCall Images x (requestUrls b ! i) \<in> set (calls (handler pf w req)))
     \<and> (if bodyDownloadFiles b = JBool False
          then fetchesOf Files (calls (handler pf w req)) = []
          else \<forall>x \<in> set (files assets).
                 FetchCall Files x (requestUrls b ! i) \<in> set (calls (handler pf w req)))
     \<and> sent (handler pf w req)
         = Gzip (createTarGz pf (nowSeconds w)
             (archived pf w (requestUrls b) (requestOptions b)))
     \<and> last (archived pf w (requestUrls b) (requestOptions b))
         = manifestEntry pf (runManifest (packageRun pf w (requestUrls b) (requestOptions b)))
     \<and> imagesCount (results (runManifest (packageRun pf w (requestUrls b) (requestOptions b))) ! i)
         = (if bodyDownloadImages b = JBool False then 0 else length (images assets))
     \<and> filesCount (results (runManifest (packageRun pf w (requestUrls b) (requestOptions b))) ! i)
         = (if bodyDownloadFiles b = JBool False then 0 else length (files assets))"
proof -
  define urls where "urls = requestUrls b"
  define options where "options = requestOptions b"
  define run where "run = packageRun pf w urls options"
  from post b ok have v: "\<not> rejectedList pf urls"
    and f: "failure run = None"
    and s: "sent (handler pf w req) = Gzip (createTarGz pf (nowSeconds w)
                    (archived pf w urls options))"
    and c: "calls (handler pf w req) = events run"
    unfolding urls_def options_def run_def by (rule handler_accepted)+
  have log: "events run = callLog w options urls"
    using f unfolding run_def by (rule packageRun_events)
  have job: "jobFetches w options (i, urls ! i) = fetchLog (urls ! i) (assetItems (pickAssets assets options))"
    using ex by (simp add: jobFetches_def urls_def)
  have sub: "set (fetchLog (urls ! i) (assetItems (pickAssets assets options))) \<subseteq> set (events run)"
  proof -
    have "i < length urls" using i by (simp add: urls_def)
    then have "set (jobFetches w options (i, urls ! i)) \<subseteq> set (callLog w options urls)"
      by (rule jobFetches_logged)
    then show ?thesis unfolding job log .
  qed
  have oi: "downloadImages options = (bodyDownloadImages b \<noteq> JBool False)"
    and "of": "downloadFiles options = (bodyDownloadFiles b \<noteq> JBool False)"
    by (simp_all add: options_def requestOptions_def)
  have free: "fetchesOf kind (events run) = []" if "\<not> kindEnabled options kind" for kind
    using packageRun_kindFree [OF that, of pf w urls] by (simp add: kindFree_def run_def)
  have one: "if bodyDownloadImages b = JBool False
          then fetchesOf Images (calls (handler pf w req)) = []
          else \<forall>x \<in> set (images assets).
                 FetchCall Images x (urls ! i) \<in> set (calls (handler pf w req))"
  proof (cases "bodyDownloadImages b = JBool False")
    case True
    with oi have "\<not> kindEnabled options Images" by simp
    with free c True show ?thesis by simp
  next
    case False
    with oi have on: "downloadImages options" by simp
    have "FetchCall Images x (urls ! i) \<in> set (events run)" if "x \<in> set (images assets)" for x
      using enabled_logged(1) [OF on that, of "urls ! i"] sub by blast
    with False c show ?thesis by simp
  qed
  have two: "if bodyDownloadFiles b = JBool False
          then fetchesOf Files (calls (handler pf w req)) = []
          else \<forall>x \<in> set (files assets).
                 FetchCall Files x (urls ! i) \<in> set (calls (handler pf w req))"
  proof (cases "bodyDownloadFiles b = JBool False")
    case True
    with "of" have "\<not> kindEnabled options Files" by simp
    with free c True show ?thesis by simp
  next
    case False
    with "of" have on: "downloadFiles options" by simp
    have "FetchCall Files x (urls ! i) \<in> set (events run)" if "x \<in> set (files assets)" for x
      using enabled_logged(2) [OF on that, of "urls ! i"] sub by blast
    with False c show ?thesis by simp
  qed
  have la: "last (archived pf w urls options) = manifestEntry pf (runManifest run)"
    by (simp add: archived_def run_def)
  from v have l: "length urls \<le> 999" by (rule accepted_length)
  from packageRun_reflects(7) [OF l f [unfolded run_def]] i
  have "jobMatches w options i (urls ! i) (results (runManifest run) ! i)"
    by (simp add: urls_def run_def)
  then have rec: "results (runManifest run) ! i
      = JobOk (urls ! i) (jobFolder (results (runManifest run) ! i))
          (length (images (pickAssets assets options)))
          (length (files (pickAssets assets options)))
          (downloadedCount (results (runManifest run) ! i))"
    using ex by (simp add: jobMatches_def urls_def)
  have ni: "imagesCount (results (runManifest run) ! i)
         = (if bodyDownloadImages b = JBool False then 0 else length (images assets))"
    by (subst rec) (simp add: pickAssets_def oi)
  have nf: "filesCount (results (runManifest run) ! i)
         = (if bodyDownloadFiles b = JBool False then 0 else length (files assets))"
    by (subst rec) (simp add: pickAssets_def "of")
  show ?thesis
    using one two s la ni nf unfolding urls_def options_def run_def by simp
qed

text \<open>
  The theorem at the request whose \<open>downloadImages\<close> is the string \<open>"false"\<close> and whose
  \<open>downloadFiles\<close> is the boolean \<open>false\<close>: the image is fetched, the file is not.
\<close>

theorem handler_options_permissive_witness:
  "JUndefined \<noteq> JBool False \<and> JNull \<noteq> JBool False \<and> JNumber 0 \<noteq> JBool False
   \<and> JString (js ''false'') \<noteq> JBool False
   \<and> httpMethod imagesRequest = js ''POST''
   \<and> body imagesRequest = Some imagesBody
   \<and> bodyDownloadImages imagesBody = JString (js ''false'')
   \<and> bodyDownloadFiles imagesBody = JBool False
   \<and> status (handler stubPlatform stubWorld imagesRequest) = 200
   \<and> extractArticleWithAssets stubWorld 0 (requestUrls imagesBody ! 0)
       = Extracted
           \<lparr>title = Some (js ''T''), articleContent = js ''see http://h/a.png'',
            author = None, date = None, articleUrl = js ''http://h/x''\<rparr>
           \<lparr>images = [js ''http://h/a.png''], files = [js ''http://h/b.pdf'']\<rparr>
   \<and> FetchCall Images (js ''http://h/a.png'') (js ''http://h/x'')
       \<in> set (calls (handler stubPlatform stubWorld imagesRequest))
   \<and> fetchesOf Files (calls (handler stubPlatform stubWorld imagesRequest)) = []
   \<and> results (runManifest (packageRun stubPlatform stubWorld (requestUrls imagesBody)
         (requestOptions imagesBody)))
       = [JobOk (js ''http://h/x'') (js ''001_T'') 1 0 1]
   \<and> map path (archived stubPlatform stubWorld (requestUrls imagesBody)
         (requestOptions imagesBody))
       = [js ''001_T/assets/images/h/a.png'', js ''001_T/index.md'', js ''manifest.json'']"
proof -
  have vs: "JUndefined \<noteq> JBool False" "JNull \<noteq> JBool False" "JNumber 0 \<noteq> JBool False"
    "JString (js ''false'') \<noteq> JBool False"
    by simp_all
  have ps: "map path (archived stubPlatform stubWorld (requestUrls imagesBody)
         (requestOptions imagesBody))
       = [js ''001_T/assets/images/h/a.png'', js ''001_T/index.md'', js ''manifest.json'']"
    by (simp add: imagesBody_fields archived_def run_stub_images manifestEntry_def)
  have st: "status (handler stubPlatform stubWorld imagesRequest) = 200"
    by (simp add: handler_images)
  have ex: "extractArticleWithAssets stubWorld 0 (requestUrls imagesBody ! 0)
       = Extracted
           \<lparr>title = Some (js ''T''), articleContent = js ''see http://h/a.png'',
            author = None, date = None, articleUrl = js ''http://h/x''\<rparr>
           \<lparr>images = [js ''http://h/a.png''], files = [js ''http://h/b.pdf'']\<rparr>"
    by (simp add: stubWorld_def imagesBody_fields)
  have i: "0 < length (requestUrls imagesBody)" by (simp add: imagesBody_fields)
  have fi: "bodyDownloadImages imagesBody = JString (js ''false'')"
    and ff: "bodyDownloadFiles imagesBody = JBool False"
    by (simp_all add: imagesBody_def)
  note t = handler_options_permissive [OF imagesBody_fields(3) imagesBody_fields(4) st i ex]
  from t fi have img: "FetchCall Images (js ''http://h/a.png'') (js ''http://h/x'')
       \<in> set (calls (handler stubPlatform stubWorld imagesRequest))"
    by (simp add: imagesBody_fields)
  from t ff have fil: "fetchesOf Files (calls (handler stubPlatform stubWorld imagesRequest)) = []"
    by simp
  have rs: "results (runManifest (packageRun stubPlatform stubWorld (requestUrls imagesBody)
         (requestOptions imagesBody)))
       = [JobOk (js ''http://h/x'') (js ''001_T'') 1 0 1]"
    by (simp add: imagesBody_fields run_stub_images)
  show ?thesis
    by (intro conjI vs imagesBody_fields(3) imagesBody_fields(4) fi ff st ex img fil rs ps)
qed

section \<open>The rewriting of overlapping URLs\<close>

text \<open>
  Claim C5 fails on the code. The article refers to the two pictures
  \<open>http://h/a.png\<close> and \<open>http://h/a.png?x\<close>; both are downloaded, to
  \<open>assets/images/h/a.png\<close> and \<open>assets/images/h/a__0000000000.png\<close>. The loop of lines
  332 to 339 first replaces \<open>http://h/a.png\<close> everywhere, also inside the second URL, so
  the step for the second asset finds nothing to replace: \<open>index.md\<close> refers to
  \<open>assets/images/h/a.png?x\<close>, which is neither the URL of the second picture nor the
  path of its file in the archive.
\<close>

theorem handler_rewrite_overlap:
  "handler stubPlatform overlapWorld overlapRequest =
     \<lparr>status = 200,
      sent = Gzip (createTarGz stubPlatform 0
        [TarFile (js ''001_T/assets/images/h/a.png'') [1, 2, 3] None None,
         TarFile (js ''001_T/assets/images/h/a__0000000000.png'') [1, 2, 3] None None,
         TarFile (js ''001_T/index.md'')
           (utf8Encode (js ''# T'' @ [0x0A] @ js ''**'' @ [0x6765, 0x6E90]
              @ js ''**: http://h/x'' @ [0x0A, 0x0A] @ js ''---'' @ [0x0A, 0x0A]
              @ js ''![](assets/images/h/a.png) ![](assets/images/h/a.png?x)'' @ [0x0A]))
           None None,
         manifestEntry stubPlatform
           \<lparr>total = 1, success = 1, failed = 0,
            results = [JobOk (js ''http://h/x'') (js ''001_T'') 2 0 2]\<rparr>]),
      calls = [ExtractCall (js ''http://h/x''),
               FetchCall Images (js ''http://h/a.png'') (js ''http://h/x''),
               FetchCall Images (js ''http://h/a.png?x'') (js ''http://h/x'')]\<rparr>"
proof -
  define b where "b = \<lparr>bodyUrls = None, bodyUrl = Some (js ''http://h/x''),
                    bodyDownloadImages = JUndefined, bodyDownloadFiles = JUndefined\<rparr>"
  have u: "requestUrls b = [js ''http://h/x'']"
    and o: "requestOptions b = \<lparr>downloadImages = True, downloadFiles = True\<rparr>"
    by (simp_all add: b_def requestUrls_def requestOptions_def js_def)
  have m: "httpMethod overlapRequest = js ''POST''" and bd: "body overlapRequest = Some b"
    by (simp_all add: overlapRequest_def b_def)
  have v: "\<not> rejectedList stubPlatform (requestUrls b)"
    unfolding u by (rule accepted_stub)
  have n: "nowSeconds overlapWorld = 0" by (simp add: overlapWorld_def)
  show ?thesis
    unfolding handler_post [OF m bd v] u o n archived_def
    by (simp add: run_overlap)
qed

end
